theory Spec2Isabelle
  imports Main
begin

section \<open>The multiplexed WebSocket relay (internal/relay/mwss.go)\<close>

text \<open>
  A shallow embedding of \<^verbatim>\<open>internal/relay/mwss.go\<close>: the client-side session pool
  (\<^verbatim>\<open>mwssTransporter.Dial\<close>), the server-side multiplexing loop (\<^verbatim>\<open>MWSSServer.mux\<close>),
  the outer accept loop of \<^verbatim>\<open>Relay.RunLocalMWSSServer\<close> and the two relay handlers.
  Everything the Go code receives from the network (the outcome of a dial, of
  \<^verbatim>\<open>AcceptStream\<close>, of \<^verbatim>\<open>Accept\<close>) is an input of the model.
\<close>

subsection \<open>Errors and connections\<close>

text \<open>
  A Go \<^verbatim>\<open>error\<close> value. The accept loop asks whether the error implements
  \<^verbatim>\<open>net.Error\<close> and, if so, what \<^verbatim>\<open>Temporary()\<close> answers.
\<close>

datatype error =
    NetError bool string
  | OtherError string

fun is_temporary :: "error \<Rightarrow> bool" where
  "is_temporary (NetError t msg) = t"
| "is_temporary (OtherError msg) = False"

text \<open>
  Connections: a raw connection (numbered), the deadline wrapper around a connection
  (\<^verbatim>\<open>NewDeadLinerConn\<close>), and a logical stream of a multiplexer wrapped together with
  its physical connection (\<^verbatim>\<open>newMuxDeadlineStreamConn\<close>).
\<close>

datatype conn =
    RawConn nat
  | DeadLinerConn conn
  | MuxDeadlineStreamConn conn nat

subsection \<open>The outer accept loop of \<^verbatim>\<open>RunLocalMWSSServer\<close>\<close>

text \<open>
  \<^verbatim>\<open>time.Duration\<close> is an \<^verbatim>\<open>int64\<close> count of nanoseconds; \<open>int64\<close> is the
  two's-complement wrap-around of Go's arithmetic on it.
\<close>

definition int64 :: "int \<Rightarrow> int" where
  "int64 x = (x + 9223372036854775808) mod 18446744073709551616 - 9223372036854775808"

definition Millisecond :: int where
  "Millisecond = 1000000"

definition Second :: int where
  "Second = 1000000000"

text \<open>
  What the loop does in one round: it sleeps for a delay before retrying, or it hands
  the accepted connection to a new \<^verbatim>\<open>handleMWSSConnToTcp\<close> task.
\<close>

datatype loop_action =
    Sleep int
  | Handle "conn option"

text \<open>
  How a run over finitely many results of \<^verbatim>\<open>s.Accept()\<close> ends: the function has
  returned an error, or it is waiting in \<^verbatim>\<open>s.Accept()\<close> with the given \<^verbatim>\<open>tempDelay\<close>.
\<close>

datatype loop_exit =
    Returned error
  | Waiting int

text \<open>
  Lines 119--141. \<^verbatim>\<open>s.Accept()\<close> returns a pair \<^verbatim>\<open>(conn, e)\<close>; \<open>None\<close> is Go's
  \<^verbatim>\<open>nil\<close>. The first argument is the variable \<^verbatim>\<open>tempDelay\<close>.
\<close>

fun accept_loop :: "int \<Rightarrow> (conn option \<times> error option) list \<Rightarrow> loop_action list \<times> loop_exit" where
  "accept_loop tempDelay [] = ([], Waiting tempDelay)"
| "accept_loop tempDelay ((c, Some e) # rest) =
     (if is_temporary e then
        (let d1 = (if tempDelay = 0 then int64 (5 * Millisecond) else int64 (tempDelay * 2));
             d2 = (if d1 > int64 (1 * Second) then int64 (1 * Second) else d1);
             (acts, ex) = accept_loop d2 rest
         in (Sleep d2 # acts, ex))
      else ([], Returned e))"
| "accept_loop tempDelay ((c, None) # rest) =
     (let (acts, ex) = accept_loop 0 rest in (Handle c # acts, ex))"

text \<open>The delay the specification gives for the \<open>k\<close>-th consecutive temporary failure
  (counted from 0): 5ms doubled \<open>k\<close> times, capped at one second.\<close>

definition backoff :: "nat \<Rightarrow> int" where
  "backoff k = min (5 * Millisecond * 2 ^ k) Second"

definition temporary_failures :: "error list \<Rightarrow> (conn option \<times> error option) list" where
  "temporary_failures es = map (\<lambda>e. (None, Some e)) es"

subsection \<open>Buffered channels\<close>

text \<open>
  A Go channel made by \<^verbatim>\<open>make(chan T, n)\<close>: its buffer, its capacity and whether
  \<^verbatim>\<open>close\<close> has been called on it.
\<close>

record 'a chan =
  chan_buf :: "'a list"
  chan_cap :: nat
  chan_closed :: bool

definition make_chan :: "nat \<Rightarrow> 'a chan" where
  "make_chan n = \<lparr>chan_buf = [], chan_cap = n, chan_closed = False\<rparr>"

text \<open>
  A \<^verbatim>\<open>select\<close> statement with one send case and, when \<open>has_default\<close> holds, a
  \<^verbatim>\<open>default\<close> case: the send case is taken when the buffer has room; otherwise the
  default case is taken if there is one, and without one the task blocks.
\<close>

datatype 'a selected =
    SendCase "'a chan"
  | DefaultCase
  | NoCaseReady

definition select_send :: "'a chan \<Rightarrow> 'a \<Rightarrow> bool \<Rightarrow> 'a selected" where
  "select_send ch v has_default =
     (if length (chan_buf ch) < chan_cap ch then SendCase (ch\<lparr>chan_buf := chan_buf ch @ [v]\<rparr>)
      else if has_default then DefaultCase
      else NoCaseReady)"

definition close_chan :: "'a chan \<Rightarrow> 'a chan" where
  "close_chan ch = ch\<lparr>chan_closed := True\<rparr>"

text \<open>
  A receive: \<open>None\<close> when it would block; otherwise the value received (\<open>None\<close> for
  the zero value a closed, drained channel yields) and the channel after it.
\<close>

definition chan_recv :: "'a chan \<Rightarrow> ('a option \<times> 'a chan) option" where
  "chan_recv ch =
     (case chan_buf ch of
        v # vs \<Rightarrow> Some (Some v, ch\<lparr>chan_buf := vs\<rparr>)
      | [] \<Rightarrow> if chan_closed ch then Some (None, ch) else None)"

subsection \<open>The server and its multiplexing loop\<close>

text \<open>The struct \<^verbatim>\<open>MWSSServer\<close> (lines 144--149), without the HTTP server handle.\<close>

record MWSSServer =
  addr :: string
  connChan :: "conn chan"
  errChan :: "error chan"

text \<open>Lines 89--93 of \<^verbatim>\<open>RunLocalMWSSServer\<close>: the server value and its two channels.\<close>

definition new_server :: "string \<Rightarrow> MWSSServer" where
  "new_server a = \<lparr>addr = a, connChan = make_chan 1024, errChan = make_chan 1\<rparr>"

text \<open>
  What happens around the loop of \<^verbatim>\<open>mux\<close>: \<^verbatim>\<open>mux.AcceptStream()\<close> returns an error
  or a stream (numbered), or the consumer takes a connection out of \<^verbatim>\<open>connChan\<close>
  between two rounds.
\<close>

datatype mux_event =
    AcceptStream "error + nat"
  | ConsumerRecv

datatype mux_status =
    AwaitingStream
  | BlockedOnQueue
  | LoopLeft

record mux_run =
  failures :: int
  queue :: "conn chan"
  dropped :: "conn list"
  unread :: "mux_event list"
  status :: mux_status

text \<open>
  Lines 172--187. The arguments are the physical connection, the variable
  \<^verbatim>\<open>failedCount\<close>, the events to come, \<^verbatim>\<open>s.connChan\<close> and the streams closed so far
  by \<^verbatim>\<open>cc.Close()\<close>. The \<^verbatim>\<open>break\<close> of line 178 leaves the loop.
\<close>

fun mux_loop :: "conn \<Rightarrow> int \<Rightarrow> mux_event list \<Rightarrow> conn chan \<Rightarrow> conn list \<Rightarrow> mux_run" where
  "mux_loop c failedCount [] ch cl =
     \<lparr>failures = failedCount, queue = ch, dropped = cl, unread = [],
      status = (if failedCount < 5 then AwaitingStream else LoopLeft)\<rparr>"
| "mux_loop c failedCount (ev # evs) ch cl =
     (if failedCount < 5 then
        (case ev of
           ConsumerRecv \<Rightarrow> mux_loop c failedCount evs (ch\<lparr>chan_buf := tl (chan_buf ch)\<rparr>) cl
         | AcceptStream (Inl err) \<Rightarrow>
             \<lparr>failures = failedCount + 1, queue = ch, dropped = cl, unread = evs,
              status = LoopLeft\<rparr>
         | AcceptStream (Inr stream) \<Rightarrow>
             (let cc = MuxDeadlineStreamConn c stream in
              case select_send ch cc True of
                SendCase ch' \<Rightarrow> mux_loop c failedCount evs ch' cl
              | DefaultCase \<Rightarrow> mux_loop c failedCount evs ch (cl @ [cc])
              | NoCaseReady \<Rightarrow>
                  \<lparr>failures = failedCount, queue = ch, dropped = cl, unread = evs,
                   status = BlockedOnQueue\<rparr>))
      else \<lparr>failures = failedCount, queue = ch, dropped = cl, unread = ev # evs,
            status = LoopLeft\<rparr>)"

text \<open>
  \<^verbatim>\<open>MWSSServer.mux\<close> (lines 160--188). \<open>setup\<close> is the error of \<^verbatim>\<open>smux.Server\<close>, if any.
  The second component tells whether the deferred \<^verbatim>\<open>mux.Close()\<close> has run, which
  closes the multiplexer and the physical connection under it.
\<close>

definition mux :: "MWSSServer \<Rightarrow> conn \<Rightarrow> error option \<Rightarrow> mux_event list \<Rightarrow> mux_run \<times> bool" where
  "mux s c setup evs =
     (case setup of
        Some err \<Rightarrow>
          (\<lparr>failures = 0, queue = connChan s, dropped = [], unread = evs, status = LoopLeft\<rparr>,
           False)
      | None \<Rightarrow>
          (let r = mux_loop c 0 evs (connChan s) [] in (r, status r = LoopLeft)))"

text \<open>
  \<^verbatim>\<open>MWSSServer.Accept\<close> (lines 190--196): a \<^verbatim>\<open>select\<close> over a receive from
  \<^verbatim>\<open>connChan\<close> and a receive from \<^verbatim>\<open>errChan\<close>. When both are ready Go chooses one
  of them at random; \<open>prefer_conn\<close> is that choice. \<open>None\<close>: the call blocks.
\<close>

definition Accept :: "bool \<Rightarrow> MWSSServer \<Rightarrow> ((conn option \<times> error option) \<times> MWSSServer) option" where
  "Accept prefer_conn s =
     (case (chan_recv (connChan s), chan_recv (errChan s)) of
        (None, None) \<Rightarrow> None
      | (Some (c, ch), None) \<Rightarrow> Some ((c, None), s\<lparr>connChan := ch\<rparr>)
      | (None, Some (e, ch)) \<Rightarrow> Some ((None, e), s\<lparr>errChan := ch\<rparr>)
      | (Some (c, ch), Some (e, ch')) \<Rightarrow>
          if prefer_conn then Some ((c, None), s\<lparr>connChan := ch\<rparr>)
          else Some ((None, e), s\<lparr>errChan := ch'\<rparr>))"

text \<open>
  Every operation the file performs on the two channels of a running server: the
  blocking send of line 114 and the \<^verbatim>\<open>close\<close> of line 116 (the task running
  \<^verbatim>\<open>server.Serve\<close>), the non-blocking offer of lines 181--186 (a \<^verbatim>\<open>mux\<close> task), and
  \<^verbatim>\<open>Accept\<close> (the accept loop). An operation that would block leaves the server as it
  is.
\<close>

datatype server_op =
    ServeFailed error
  | ServeReturned
  | StreamOffered conn
  | AcceptCalled bool

fun server_step :: "MWSSServer \<Rightarrow> server_op \<Rightarrow> MWSSServer" where
  "server_step s (ServeFailed err) =
     (case select_send (errChan s) err False of
        SendCase ch \<Rightarrow> s\<lparr>errChan := ch\<rparr>
      | DefaultCase \<Rightarrow> s
      | NoCaseReady \<Rightarrow> s)"
| "server_step s ServeReturned = s\<lparr>errChan := close_chan (errChan s)\<rparr>"
| "server_step s (StreamOffered cc) =
     (case select_send (connChan s) cc True of
        SendCase ch \<Rightarrow> s\<lparr>connChan := ch\<rparr>
      | DefaultCase \<Rightarrow> s
      | NoCaseReady \<Rightarrow> s)"
| "server_step s (AcceptCalled prefer_conn) =
     (case Accept prefer_conn s of None \<Rightarrow> s | Some (r, s') \<Rightarrow> s')"

subsection \<open>Sessions, slices and the session pool\<close>

text \<open>
  A \<^verbatim>\<open>*muxSession\<close> is the address of a session object in a heap of sessions, a slice
  \<^verbatim>\<open>[]*muxSession\<close> is a header (backing array, length) onto an array of such pointers
  in a store of arrays; \<open>None\<close> is \<^verbatim>\<open>nil\<close>. Every slice of this file starts at the
  beginning of its array, so its capacity is the length of the array.
\<close>

type_synonym sid = nat

type_synonym aid = nat

text \<open>
  Modelled from the spec: the methods \<^verbatim>\<open>NumStreams\<close>, \<^verbatim>\<open>IsClosed\<close>, \<^verbatim>\<open>GetConn\<close> and
  \<^verbatim>\<open>Close\<close> of \<^verbatim>\<open>muxSession\<close> are not in this file. A session has its physical
  connection, its maximum stream count (lines 83--84), the count of live logical
  streams and whether its multiplexer is torn down. \<^verbatim>\<open>GetConn\<close> asks the multiplexer
  for a stream, which is refused with an error or granted (one more live stream);
  \<^verbatim>\<open>Close\<close> tears the session down and is idempotent.
\<close>

record muxSession =
  physical :: conn
  maxStreamCnt :: int
  streams :: int
  closed :: bool

definition NumStreams :: "muxSession \<Rightarrow> int" where
  "NumStreams s = streams s"

definition IsClosed :: "muxSession \<Rightarrow> bool" where
  "IsClosed s = closed s"

definition Close :: "muxSession \<Rightarrow> muxSession" where
  "Close s = s\<lparr>closed := True\<rparr>"

definition GetConn :: "error + nat \<Rightarrow> muxSession \<Rightarrow> (error + conn) \<times> muxSession" where
  "GetConn answer s =
     (case answer of
        Inl err \<Rightarrow> (Inl err, s)
      | Inr stream \<Rightarrow> (Inr (MuxDeadlineStreamConn (physical s) stream), s\<lparr>streams := streams s + 1\<rparr>))"

record slice =
  slice_ptr :: "aid option"
  slice_len :: nat

definition nil_slice :: slice where
  "nil_slice = \<lparr>slice_ptr = None, slice_len = 0\<rparr>"

definition slice_cap :: "sid option list list \<Rightarrow> slice \<Rightarrow> nat" where
  "slice_cap arrs sl = (case slice_ptr sl of None \<Rightarrow> 0 | Some a \<Rightarrow> length (arrs ! a))"

definition slice_elems :: "sid option list list \<Rightarrow> slice \<Rightarrow> sid option list" where
  "slice_elems arrs sl =
     (case slice_ptr sl of None \<Rightarrow> [] | Some a \<Rightarrow> take (slice_len sl) (arrs ! a))"

text \<open>
  Go's \<^verbatim>\<open>append(sl, xs...)\<close>. With room in the backing array the values are written
  into it behind the slice's length, and every other slice onto that array sees them;
  without room a new array is allocated, of a capacity that Go leaves to the runtime
  (\<open>grow\<close>, given the old capacity and the length needed; at least the length needed).
\<close>

definition append_slice ::
  "(nat \<Rightarrow> nat \<Rightarrow> nat) \<Rightarrow> sid option list list \<Rightarrow> slice \<Rightarrow> sid option list
     \<Rightarrow> sid option list list \<times> slice" where
  "append_slice grow arrs sl xs =
     (let n = slice_len sl + length xs in
      if n \<le> slice_cap arrs sl then
        (case slice_ptr sl of
           None \<Rightarrow> (arrs, sl)
         | Some a \<Rightarrow>
             (arrs[a := take (slice_len sl) (arrs ! a) @ xs @ drop n (arrs ! a)],
              sl\<lparr>slice_len := n\<rparr>))
      else
        (let c = max n (grow (slice_cap arrs sl) n) in
         (arrs @ [slice_elems arrs sl @ xs @ replicate (c - n) None],
          \<lparr>slice_ptr = Some (length arrs), slice_len = n\<rparr>)))"

text \<open>
  What \<^verbatim>\<open>Dial\<close> does to the mutex and to the network, in order: the calls of lines
  27 and 28 (the latter deferred to the return), the WebSocket dial of
  \<^verbatim>\<open>initSession\<close>, \<^verbatim>\<open>session.GetConn()\<close> and \<^verbatim>\<open>session.Close()\<close>.
\<close>

datatype event =
    Lock
  | Unlock
  | WsDial string
  | OpenStream sid
  | CloseSession sid

text \<open>
  Every step of \<^verbatim>\<open>Dial\<close>, in program order: the calls on the mutex (lines 27 and
  28), the lookup in the map (line 32), the \<^verbatim>\<open>range\<close> loop (lines 35--42), the
  eviction (line 47, with the index evicted), \<^verbatim>\<open>initSession\<close> (line 53), the
  \<^verbatim>\<open>append\<close> of the new session (line 57), \<^verbatim>\<open>session.GetConn()\<close> (line 59),
  \<^verbatim>\<open>session.Close()\<close> (line 61) and the write to the map (line 64).
\<close>

datatype step =
    DoLock
  | DoUnlock
  | LookupSessions string
  | ScanSessions
  | EvictSession nat
  | OpenSession string
  | AppendSession sid
  | RequestStream sid
  | CloseFailed sid
  | PersistSessions string

text \<open>
  The state of the program around a \<^verbatim>\<open>mwssTransporter\<close>: the session objects, the
  backing arrays, the field \<^verbatim>\<open>sessions\<close> (a map from address to slice), the events
  so far and the steps so far.
\<close>

record transporter =
  heap :: "muxSession list"
  arrays :: "sid option list list"
  sessions :: "string \<rightharpoonup> slice"
  events :: "event list"
  steps :: "step list"

text \<open>\<^verbatim>\<open>NewMWSSTransporter\<close> (lines 20--24), in a program that has made no session yet.\<close>

definition NewMWSSTransporter :: transporter where
  "NewMWSSTransporter =
     \<lparr>heap = [], arrays = [], sessions = Map.empty, events = [], steps = []\<rparr>"

text \<open>
  What one call of \<^verbatim>\<open>Dial\<close> takes from outside the file: the constant
  \<^verbatim>\<open>MaxMWSSStreamCnt\<close>, the growth of \<^verbatim>\<open>append\<close>, and what the network answers to
  the WebSocket dial (an error or a raw connection), to \<^verbatim>\<open>smux.Client\<close> and to the
  request for a stream.
\<close>

record env =
  MaxMWSSStreamCnt :: int
  grow :: "nat \<Rightarrow> nat \<Rightarrow> nat"
  ws_dial :: "error + nat"
  smux_client :: "error option"
  open_stream :: "error + nat"

text \<open>Following a pointer; \<open>None\<close> for \<^verbatim>\<open>nil\<close> (Go panics) and for an address that
  holds no session (which no Go pointer is).\<close>

definition deref :: "muxSession list \<Rightarrow> sid option \<Rightarrow> muxSession option" where
  "deref h p = (case p of None \<Rightarrow> None | Some q \<Rightarrow> if q < length h then Some (h ! q) else None)"

text \<open>
  Lines 35--42, the \<^verbatim>\<open>range\<close> loop. The arguments are the heap, the elements still to
  visit, the index of the first of them, and the variables \<^verbatim>\<open>session\<close>,
  \<^verbatim>\<open>sessionIndex\<close> and \<^verbatim>\<open>ok\<close>; the result is these variables after the loop, or
  \<open>None\<close> when a \<^verbatim>\<open>nil\<close> pointer is dereferenced.
\<close>

fun scan ::
  "muxSession list \<Rightarrow> sid option list \<Rightarrow> nat \<Rightarrow> sid option \<times> nat \<times> bool
     \<Rightarrow> (sid option \<times> nat \<times> bool) option" where
  "scan h [] i vars = Some vars"
| "scan h (p # ps) i vars =
     (case deref h p of
        None \<Rightarrow> None
      | Some s \<Rightarrow>
          if NumStreams s \<ge> maxStreamCnt s then scan h ps (i + 1) (p, i, False)
          else Some (p, i, True))"

text \<open>
  Lines 45--49: \<^verbatim>\<open>sessions = append(sessions[:sessionIndex], sessions[sessionIndex+1:]...)\<close>
  when the session the scan ended on is closed. \<open>None\<close>: a panic (a slice bound out
  of range).
\<close>

definition evict ::
  "env \<Rightarrow> transporter \<Rightarrow> slice \<Rightarrow> sid option \<Rightarrow> nat \<Rightarrow> bool
     \<Rightarrow> (transporter \<times> slice \<times> bool) option" where
  "evict e tr sl session sessionIndex ok =
     (case session of
        None \<Rightarrow> Some (tr, sl, ok)
      | Some q \<Rightarrow>
          (case deref (heap tr) session of
             None \<Rightarrow> None
           | Some s \<Rightarrow>
               if IsClosed s then
                 (if sessionIndex \<le> slice_cap (arrays tr) sl \<and> sessionIndex + 1 \<le> slice_len sl then
                    (let (arrs, sl') =
                           append_slice (grow e) (arrays tr) (sl\<lparr>slice_len := sessionIndex\<rparr>)
                             (drop (sessionIndex + 1) (slice_elems (arrays tr) sl))
                     in Some (tr\<lparr>arrays := arrs,
                                 steps := steps tr @ [EvictSession sessionIndex]\<rparr>, sl', False))
                  else None)
               else Some (tr, sl, ok)))"

text \<open>\<^verbatim>\<open>initSession\<close> (lines 68--85): the new session has no stream and is open.\<close>

definition initSession :: "env \<Rightarrow> string \<Rightarrow> transporter \<Rightarrow> (error + sid) \<times> transporter" where
  "initSession e a tr =
     (let tr' = tr\<lparr>events := events tr @ [WsDial a],
                    steps := steps tr @ [OpenSession a]\<rparr> in
      case ws_dial e of
        Inl err \<Rightarrow> (Inl err, tr')
      | Inr rc \<Rightarrow>
          (case smux_client e of
             Some err \<Rightarrow> (Inl err, tr')
           | None \<Rightarrow>
               (Inr (length (heap tr')),
                tr'\<lparr>heap := heap tr' @
                  [\<lparr>physical = DeadLinerConn (RawConn rc), maxStreamCnt = MaxMWSSStreamCnt e,
                    streams = 0, closed = False\<rparr>]\<rparr>)))"

datatype dial_result =
    DialPanic
  | DialErr error
  | DialOk conn

text \<open>Lines 59--65: the request for a stream, and the write to the map on success.\<close>

definition get_stream ::
  "env \<Rightarrow> string \<Rightarrow> transporter \<Rightarrow> slice \<Rightarrow> sid option \<Rightarrow> dial_result \<times> transporter" where
  "get_stream e a tr sl session =
     (case session of
        None \<Rightarrow> (DialPanic, tr)
      | Some q \<Rightarrow>
          (case deref (heap tr) session of
             None \<Rightarrow> (DialPanic, tr)
           | Some s \<Rightarrow>
               (case GetConn (open_stream e) s of
                  (Inl err, s') \<Rightarrow>
                    (DialErr err,
                     tr\<lparr>heap := (heap tr)[q := Close s'],
                        events := events tr @ [OpenStream q, CloseSession q],
                        steps := steps tr @ [RequestStream q, CloseFailed q]\<rparr>)
                | (Inr cc, s') \<Rightarrow>
                    (DialOk cc,
                     tr\<lparr>heap := (heap tr)[q := s'],
                        sessions := (sessions tr)(a \<mapsto> sl),
                        events := events tr @ [OpenStream q],
                        steps := steps tr @ [RequestStream q, PersistSessions a]\<rparr>))))"

text \<open>Lines 52--65: a new session when \<^verbatim>\<open>ok\<close> is false, then the stream.\<close>

definition create_and_get ::
  "env \<Rightarrow> string \<Rightarrow> transporter \<Rightarrow> slice \<Rightarrow> sid option \<Rightarrow> bool \<Rightarrow> dial_result \<times> transporter" where
  "create_and_get e a tr sl session ok =
     (if \<not> ok then
        (case initSession e a tr of
           (Inl err, tr') \<Rightarrow> (DialErr err, tr')
         | (Inr q, tr') \<Rightarrow>
             (let (arrs, sl') = append_slice (grow e) (arrays tr') sl [Some q]
              in get_stream e a
                   (tr'\<lparr>arrays := arrs, steps := steps tr' @ [AppendSession q]\<rparr>) sl' (Some q)))
      else get_stream e a tr sl session)"

text \<open>
  Lines 30--65 of \<^verbatim>\<open>Dial\<close>: the lookup in the map, the scan, the eviction, and the
  rest.
\<close>

definition dial_body :: "env \<Rightarrow> string \<Rightarrow> transporter \<Rightarrow> dial_result \<times> transporter" where
  "dial_body e a tr0 =
     (let tr = tr0\<lparr>steps := steps tr0 @ [LookupSessions a, ScanSessions]\<rparr>;
          (sl, ok0) = (case sessions tr a of None \<Rightarrow> (nil_slice, False) | Some sl \<Rightarrow> (sl, True))
      in case scan (heap tr) (slice_elems (arrays tr) sl) 0 (None, 0, ok0) of
           None \<Rightarrow> (DialPanic, tr)
         | Some (session, sessionIndex, ok) \<Rightarrow>
             (case evict e tr sl session sessionIndex ok of
                None \<Rightarrow> (DialPanic, tr)
              | Some (tr1, sl1, ok1) \<Rightarrow> create_and_get e a tr1 sl1 session ok1))"

text \<open>
  \<^verbatim>\<open>mwssTransporter.Dial\<close> (lines 26--66): \<^verbatim>\<open>Lock\<close> at line 27, and the \<^verbatim>\<open>Unlock\<close>
  deferred at line 28, which runs when the function returns, on every path.
\<close>

definition Dial :: "env \<Rightarrow> string \<Rightarrow> transporter \<Rightarrow> dial_result \<times> transporter" where
  "Dial e a tr0 =
     (let (r, tr') = dial_body e a (tr0\<lparr>events := events tr0 @ [Lock],
                                       steps := steps tr0 @ [DoLock]\<rparr>)
      in (r, tr'\<lparr>events := events tr' @ [Unlock], steps := steps tr' @ [DoUnlock]\<rparr>))"

text \<open>The sequence of sessions the pool records for an address.\<close>

definition recorded :: "transporter \<Rightarrow> string \<Rightarrow> sid option list option" where
  "recorded tr a = map_option (slice_elems (arrays tr)) (sessions tr a)"

text \<open>A slice header that fits the store of arrays.\<close>

definition wf_slice :: "sid option list list \<Rightarrow> slice \<Rightarrow> bool" where
  "wf_slice arrs sl =
     (case slice_ptr sl of
        None \<Rightarrow> slice_len sl = 0
      | Some a \<Rightarrow> a < length arrs \<and> slice_len sl \<le> length (arrs ! a))"

text \<open>The two answers of the scan's test at line 36, for a pointer that can be followed.\<close>

definition at_capacity :: "muxSession list \<Rightarrow> sid option \<Rightarrow> bool" where
  "at_capacity h p =
     (case deref h p of None \<Rightarrow> False | Some s \<Rightarrow> NumStreams s \<ge> maxStreamCnt s)"

definition below_max :: "muxSession list \<Rightarrow> sid option \<Rightarrow> bool" where
  "below_max h p =
     (case deref h p of None \<Rightarrow> False | Some s \<Rightarrow> NumStreams s < maxStreamCnt s)"

text \<open>The events one call of \<^verbatim>\<open>Dial\<close> adds.\<close>

definition dial_trace :: "env \<Rightarrow> string \<Rightarrow> transporter \<Rightarrow> event list" where
  "dial_trace e a tr = drop (length (events tr)) (events (snd (Dial e a tr)))"

text \<open>
  Step 6 of the specification, read on a trace: no stream is requested while the mutex
  is held. The first argument tells whether the mutex is held before the first event.
\<close>

fun requests_outside_lock :: "bool \<Rightarrow> event list \<Rightarrow> bool" where
  "requests_outside_lock held [] = True"
| "requests_outside_lock held (Lock # evs) = requests_outside_lock True evs"
| "requests_outside_lock held (Unlock # evs) = requests_outside_lock False evs"
| "requests_outside_lock held (OpenStream q # evs) = (\<not> held \<and> requests_outside_lock held evs)"
| "requests_outside_lock held (WsDial a # evs) = requests_outside_lock held evs"
| "requests_outside_lock held (CloseSession q # evs) = requests_outside_lock held evs"

text \<open>The opposite reading: every call to the network happens while the mutex is held.\<close>

fun calls_under_lock :: "bool \<Rightarrow> event list \<Rightarrow> bool" where
  "calls_under_lock held [] = True"
| "calls_under_lock held (Lock # evs) = calls_under_lock True evs"
| "calls_under_lock held (Unlock # evs) = calls_under_lock False evs"
| "calls_under_lock held (OpenStream q # evs) = (held \<and> calls_under_lock held evs)"
| "calls_under_lock held (WsDial a # evs) = (held \<and> calls_under_lock held evs)"
| "calls_under_lock held (CloseSession q # evs) = (held \<and> calls_under_lock held evs)"

text \<open>The steps one call of \<^verbatim>\<open>Dial\<close> adds.\<close>

definition dial_steps :: "env \<Rightarrow> string \<Rightarrow> transporter \<Rightarrow> step list" where
  "dial_steps e a tr = drop (length (steps tr)) (steps (snd (Dial e a tr)))"

text \<open>
  Every step other than the calls on the mutex happens while the mutex is held. The
  first argument tells whether the mutex is held before the first step.
\<close>

fun steps_under_lock :: "bool \<Rightarrow> step list \<Rightarrow> bool" where
  "steps_under_lock held [] = True"
| "steps_under_lock held (DoLock # ss) = steps_under_lock True ss"
| "steps_under_lock held (DoUnlock # ss) = steps_under_lock False ss"
| "steps_under_lock held (LookupSessions a # ss) = (held \<and> steps_under_lock held ss)"
| "steps_under_lock held (ScanSessions # ss) = (held \<and> steps_under_lock held ss)"
| "steps_under_lock held (EvictSession i # ss) = (held \<and> steps_under_lock held ss)"
| "steps_under_lock held (OpenSession a # ss) = (held \<and> steps_under_lock held ss)"
| "steps_under_lock held (AppendSession q # ss) = (held \<and> steps_under_lock held ss)"
| "steps_under_lock held (RequestStream q # ss) = (held \<and> steps_under_lock held ss)"
| "steps_under_lock held (CloseFailed q # ss) = (held \<and> steps_under_lock held ss)"
| "steps_under_lock held (PersistSessions a # ss) = (held \<and> steps_under_lock held ss)"

text \<open>The event, if any, that a step shows to the mutex or to the network.\<close>

fun event_of :: "step \<Rightarrow> event option" where
  "event_of DoLock = Some Lock"
| "event_of DoUnlock = Some Unlock"
| "event_of (OpenSession a) = Some (WsDial a)"
| "event_of (RequestStream q) = Some (OpenStream q)"
| "event_of (CloseFailed q) = Some (CloseSession q)"
| "event_of (LookupSessions a) = None"
| "event_of ScanSessions = None"
| "event_of (EvictSession i) = None"
| "event_of (AppendSession q) = None"
| "event_of (PersistSessions a) = None"

text \<open>Whether a pointer leads to a closed session.\<close>

definition is_closed_at :: "muxSession list \<Rightarrow> sid option \<Rightarrow> bool" where
  "is_closed_at h p = (case deref h p of None \<Rightarrow> False | Some s \<Rightarrow> IsClosed s)"

text \<open>The session on which the scan of a call of \<^verbatim>\<open>Dial\<close> for an address ends: the
  value of the variable \<^verbatim>\<open>session\<close> at line 45.\<close>

definition scan_end :: "transporter \<Rightarrow> string \<Rightarrow> sid option" where
  "scan_end tr a =
     (case sessions tr a of
        None \<Rightarrow> None
      | Some sl \<Rightarrow>
          (case scan (heap tr) (slice_elems (arrays tr) sl) 0 (None, 0, True) of
             None \<Rightarrow> None
           | Some (s, i, ok) \<Rightarrow> s))"


text \<open>Calls of \<^verbatim>\<open>Dial\<close> for one address, one after the other.\<close>

fun dials :: "env list \<Rightarrow> string \<Rightarrow> transporter \<Rightarrow> dial_result list \<times> transporter" where
  "dials [] a tr = ([], tr)"
| "dials (e # es) a tr =
     (let (r, tr') = Dial e a tr; (rs, tr'') = dials es a tr' in (r # rs, tr''))"

text \<open>
  States and answers of the network at which the theorems below are evaluated: a
  session with a maximum of two streams, a transporter whose pool records the given
  sequence for the address \<^verbatim>\<open>D/tcp/\<close> in an array of exactly that length, and a
  network with \<^verbatim>\<open>MaxMWSSStreamCnt = 2\<close> whose \<^verbatim>\<open>append\<close> doubles the capacity.
\<close>

definition session_with :: "nat \<Rightarrow> int \<Rightarrow> bool \<Rightarrow> muxSession" where
  "session_with rc n c =
     \<lparr>physical = DeadLinerConn (RawConn rc), maxStreamCnt = 2, streams = n, closed = c\<rparr>"

definition pool_of :: "muxSession list \<Rightarrow> sid option list \<Rightarrow> transporter" where
  "pool_of h ps =
     \<lparr>heap = h, arrays = [ps],
      sessions = [''D/tcp/'' \<mapsto> \<lparr>slice_ptr = Some 0, slice_len = length ps\<rparr>], events = [],
      steps = []\<rparr>"

definition network :: "error + nat \<Rightarrow> error + nat \<Rightarrow> env" where
  "network d s =
     \<lparr>MaxMWSSStreamCnt = 2, grow = (\<lambda>c n. 2 * c), ws_dial = d, smux_client = None,
      open_stream = s\<rparr>"

subsection \<open>The relay handlers\<close>

text \<open>The addresses of a \<^verbatim>\<open>Relay\<close> that the handlers use.\<close>

record Relay =
  LocalTCPAddr :: string
  RemoteTCPAddr :: string

text \<open>
  What a handler does to connections, in order: \<^verbatim>\<open>Close\<close> on one, or the byte copy
  \<^verbatim>\<open>transport\<close> between two (which is outside this file, and is taken to return).
\<close>

datatype conn_event =
    Closed conn
  | Transport conn conn

datatype handler_result =
    HandlerPanic
  | HandlerReturn "error option"

text \<open>
  \<^verbatim>\<open>Relay.handleTcpOverMWSS\<close> (lines 208--221), on the transporter \<^verbatim>\<open>tr\<close> of line
  206. The deferred calls run at the return, last deferred first, also when \<^verbatim>\<open>Dial\<close>
  panics.
\<close>

definition handleTcpOverMWSS ::
  "Relay \<Rightarrow> env \<Rightarrow> conn \<Rightarrow> transporter \<Rightarrow> handler_result \<times> conn_event list \<times> transporter" where
  "handleTcpOverMWSS r e c tr =
     (let dc = DeadLinerConn c;
          a = RemoteTCPAddr r @ ''/tcp/'';
          (res, tr') = Dial e a tr
      in case res of
           DialPanic \<Rightarrow> (HandlerPanic, [Closed dc], tr')
         | DialErr err \<Rightarrow> (HandlerReturn (Some err), [Closed dc], tr')
         | DialOk wsc \<Rightarrow> (HandlerReturn None, [Transport wsc dc, Closed wsc, Closed dc], tr'))"

text \<open>
  \<^verbatim>\<open>Relay.handleMWSSConnToTcp\<close> (lines 223--235). \<open>tcp_dial\<close> is the answer of
  \<^verbatim>\<open>net.Dial\<close>: an error or a raw connection. On a \<^verbatim>\<open>nil\<close> connection the statement
  \<^verbatim>\<open>defer c.Close()\<close> panics.
\<close>

definition handleMWSSConnToTcp ::
  "Relay \<Rightarrow> conn option \<Rightarrow> error + nat \<Rightarrow> handler_result \<times> conn_event list" where
  "handleMWSSConnToTcp r c tcp_dial =
     (case c of
        None \<Rightarrow> (HandlerPanic, [])
      | Some c' \<Rightarrow>
          (case tcp_dial of
             Inl err \<Rightarrow> (HandlerReturn None, [Closed c'])
           | Inr rc \<Rightarrow>
               (let drc = DeadLinerConn (RawConn rc)
                in (HandlerReturn None, [Transport drc c', Closed drc, Closed c']))))"

section \<open>Properties\<close>

subsection \<open>Backoff of the outer accept loop\<close>

lemma int64_id: "- 9223372036854775808 \<le> x \<Longrightarrow> x < 9223372036854775808 \<Longrightarrow> int64 x = x"
  by (simp add: int64_def)

lemma backoff_pos: "0 < backoff k"
  by (simp add: backoff_def Millisecond_def Second_def)

lemma backoff_le: "backoff k \<le> Second"
  by (simp add: backoff_def)

lemma backoff_next:
  "(let d1 = int64 (backoff k * 2);
        d2 = (if d1 > int64 (1 * Second) then int64 (1 * Second) else d1) in d2) = backoff (Suc k)"
proof -
  have b: "0 < backoff k" "backoff k \<le> 1000000000"
    using backoff_pos [of k] backoff_le [of k] by (simp_all add: Second_def)
  then have "int64 (backoff k * 2) = backoff k * 2"
    by (intro int64_id) simp_all
  moreover have "int64 (1 * Second) = Second"
    by (simp add: int64_def Second_def)
  moreover have "backoff (Suc k) = min (backoff k * 2) Second"
  proof -
    define a where "a = 5 * Millisecond * 2 ^ k"
    have s: "0 < Second" by (simp add: Second_def)
    have "backoff k = min a Second" "backoff (Suc k) = min (a * 2) Second"
      by (simp_all add: backoff_def a_def)
    then show ?thesis using s by (simp add: min_def)
  qed
  ultimately show ?thesis
    by (simp add: Let_def min_def)
qed

lemma backoff_first:
  "(let d1 = int64 (5 * Millisecond);
        d2 = (if d1 > int64 (1 * Second) then int64 (1 * Second) else d1) in d2) = backoff 0"
  by (simp add: int64_def Millisecond_def Second_def backoff_def Let_def)

lemma accept_loop_failures_from:
  assumes "\<forall>e\<in>set es. is_temporary e"
  shows "accept_loop (backoff k) (temporary_failures es @ rest) =
           (map (\<lambda>j. Sleep (backoff (Suc k + j))) [0..<length es] @
              fst (accept_loop (backoff (k + length es)) rest),
            snd (accept_loop (backoff (k + length es)) rest))"
  using assms
proof (induction es arbitrary: k)
  case Nil
  then show ?case by (simp add: temporary_failures_def)
next
  case (Cons e es)
  have nz: "backoff k \<noteq> 0" using backoff_pos [of k] by simp
  have tmp: "is_temporary e" using Cons.prems by simp
  have ih: "accept_loop (backoff (Suc k)) (temporary_failures es @ rest) =
           (map (\<lambda>j. Sleep (backoff (Suc (Suc k) + j))) [0..<length es] @
              fst (accept_loop (backoff (Suc k + length es)) rest),
            snd (accept_loop (backoff (Suc k + length es)) rest))"
    using Cons.IH [of "Suc k"] Cons.prems by simp
  have step: "accept_loop (backoff k) ((None, Some e) # temporary_failures es @ rest) =
      (Sleep (backoff (Suc k)) # fst (accept_loop (backoff (Suc k)) (temporary_failures es @ rest)),
       snd (accept_loop (backoff (Suc k)) (temporary_failures es @ rest)))"
    using backoff_next [of k] nz tmp by (simp add: Let_def split_beta)
  have shift: "map (\<lambda>j. Sleep (backoff (Suc k + j))) [0..<Suc (length es)] =
      Sleep (backoff (Suc k)) # map (\<lambda>j. Sleep (backoff (Suc (Suc k) + j))) [0..<length es]"
    by (simp add: upt_conv_Cons map_Suc_upt [symmetric] del: upt_Suc)
  show ?case
    using step ih shift by (simp add: temporary_failures_def del: upt_Suc)
qed

lemma accept_loop_failures:
  assumes "\<forall>e\<in>set es. is_temporary e"
  shows "accept_loop 0 (temporary_failures es @ rest) =
           (map (\<lambda>j. Sleep (backoff j)) [0..<length es] @
              fst (accept_loop (if es = [] then 0 else backoff (length es - 1)) rest),
            snd (accept_loop (if es = [] then 0 else backoff (length es - 1)) rest))"
proof (cases es)
  case Nil
  then show ?thesis by (simp add: temporary_failures_def)
next
  case (Cons e es')
  have tmp: "is_temporary e" and rest': "\<forall>e\<in>set es'. is_temporary e"
    using assms Cons by simp_all
  have step: "accept_loop 0 ((None, Some e) # temporary_failures es' @ rest) =
      (Sleep (backoff 0) # fst (accept_loop (backoff 0) (temporary_failures es' @ rest)),
       snd (accept_loop (backoff 0) (temporary_failures es' @ rest)))"
    using backoff_first tmp by (simp add: Let_def split_beta)
  have shift: "map (\<lambda>j. Sleep (backoff j)) [0..<Suc (length es')] =
      Sleep (backoff 0) # map (\<lambda>j. Sleep (backoff (Suc 0 + j))) [0..<length es']"
    by (simp add: upt_conv_Cons map_Suc_upt [symmetric] del: upt_Suc)
  show ?thesis
    using step accept_loop_failures_from [OF rest', of 0 rest] shift Cons
    by (simp add: temporary_failures_def del: upt_Suc)
qed

text \<open>
  Claim C6. Started with \<^verbatim>\<open>tempDelay = 0\<close> (as at line 119, and as after every
  successful accept), a run of consecutive temporary accept errors makes the loop sleep
  5ms, 10ms, 20ms, ... (doubling, capped at one second) and carry on; a successful
  accept resets \<^verbatim>\<open>tempDelay\<close> to zero whatever it was; an accept error that is not
  temporary makes the function return that error.
\<close>

theorem accept_loop_backoff:
  assumes "\<forall>e\<in>set es. is_temporary e" and "\<not> is_temporary e'"
  shows "fst (accept_loop 0 (temporary_failures es @ rest)) =
           map (\<lambda>j. Sleep (min (5000000 * 2 ^ j) 1000000000)) [0..<length es] @
             fst (accept_loop
               (if es = [] then 0 else min (5000000 * 2 ^ (length es - 1)) 1000000000) rest)
       \<and> accept_loop d ((c, None) # rest) =
           (Handle c # fst (accept_loop 0 rest), snd (accept_loop 0 rest))
       \<and> accept_loop d ((c, Some e') # rest) = ([], Returned e')"
proof -
  have b: "\<And>j. backoff j = min (5000000 * 2 ^ j) 1000000000"
    by (simp add: backoff_def Millisecond_def Second_def)
  have "fst (accept_loop 0 (temporary_failures es @ rest)) =
           map (\<lambda>j. Sleep (min (5000000 * 2 ^ j) 1000000000)) [0..<length es] @
             fst (accept_loop
               (if es = [] then 0 else min (5000000 * 2 ^ (length es - 1)) 1000000000) rest)"
    using accept_loop_failures [OF assms(1), of rest] by (simp add: b)
  moreover have "accept_loop d ((c, None) # rest) =
     (Handle c # fst (accept_loop 0 rest), snd (accept_loop 0 rest))"
    by (simp add: split_beta)
  moreover have "accept_loop d ((c, Some e') # rest) = ([], Returned e')"
    using assms(2) by simp
  ultimately show ?thesis by blast
qed

theorem accept_loop_backoff_witness:
  "is_temporary (NetError True ''timeout'')
   \<and> \<not> is_temporary (OtherError ''closed'')
   \<and> fst (accept_loop 0 (temporary_failures (replicate 10 (NetError True ''timeout'')) @
         [(Some (RawConn 1), None), (None, Some (NetError True ''timeout''))])) =
       [Sleep 5000000, Sleep 10000000, Sleep 20000000, Sleep 40000000, Sleep 80000000,
        Sleep 160000000, Sleep 320000000, Sleep 640000000, Sleep 1000000000, Sleep 1000000000,
        Handle (Some (RawConn 1)), Sleep 5000000]
   \<and> accept_loop 1000000000 [(None, Some (OtherError ''closed'')),
         (Some (RawConn 1), None), (None, Some (NetError True ''timeout''))] =
       ([], Returned (OtherError ''closed''))"
proof -
  have h1: "\<forall>e\<in>set (replicate 10 (NetError True ''timeout'')). is_temporary e"
    by simp
  have h2: "\<not> is_temporary (OtherError ''closed'')"
    by simp
  have up: "[0..<10] = [0, 1, 2, 3, 4, 5, 6, 7, 8, 9::nat]"
    by code_simp
  show ?thesis
    using h1 h2
      accept_loop_backoff [OF h1 h2,
        of "[(Some (RawConn 1), None), (None, Some (NetError True ''timeout''))]"
           1000000000 None]
    by (simp add: up int64_def Millisecond_def Second_def)
qed

subsection \<open>The multiplexing loop and the accept queue\<close>

lemma select_send_default: "select_send ch v True \<noteq> NoCaseReady"
  by (simp add: select_send_def)

lemma select_send_full:
  "length (chan_buf ch) = chan_cap ch \<Longrightarrow> select_send ch v True = DefaultCase"
  by (simp add: select_send_def)

lemma mux_loop_not_blocked: "status (mux_loop c fc evs ch cl) \<noteq> BlockedOnQueue"
proof (induction evs arbitrary: ch cl)
  case Nil
  then show ?case by simp
next
  case (Cons ev evs)
  show ?case
  proof (cases ev)
    case (AcceptStream r)
    then show ?thesis
      using Cons.IH select_send_default [of ch]
      by (cases r) (auto simp: Let_def split: selected.splits)
  next
    case ConsumerRecv
    then show ?thesis using Cons.IH by simp
  qed
qed

lemma mux_loop_unread:
  "status (mux_loop c fc evs ch cl) = AwaitingStream \<Longrightarrow> unread (mux_loop c fc evs ch cl) = []"
proof (induction evs arbitrary: ch cl)
  case Nil
  then show ?case by simp
next
  case (Cons ev evs)
  show ?case
  proof (cases ev)
    case (AcceptStream r)
    then show ?thesis
      using Cons.IH Cons.prems select_send_default [of ch]
      by (cases r) (auto simp: Let_def split: selected.splits if_splits)
  next
    case ConsumerRecv
    then show ?thesis using Cons.IH Cons.prems by (simp split: if_splits)
  qed
qed

text \<open>
  Claim C1, evaluated on the code. The claim says that the loop keeps accepting across
  stream-accept failures and gives up only after five consecutive ones. The code leaves
  the loop at the first failure (the \<^verbatim>\<open>break\<close> of line 178): with an error as the very
  first result of \<^verbatim>\<open>AcceptStream\<close>, \<^verbatim>\<open>failedCount\<close> ends at 1, no later event is
  read, and the deferred \<^verbatim>\<open>mux.Close()\<close> runs.
\<close>

theorem mux_leaves_at_first_failure:
  "mux s c None (AcceptStream (Inl err) # evs) =
     (\<lparr>failures = 1, queue = connChan s, dropped = [], unread = evs, status = LoopLeft\<rparr>, True)"
  by (simp add: mux_def)

text \<open>
  Claim C5. With the accept queue at capacity, an accepted stream is closed at once
  and not enqueued, and the loop goes on with the next event; and whatever the queue
  holds and whatever the consumer does, a run of the loop never ends blocked on the
  queue: it has left the loop, or it has read every event and waits in
  \<^verbatim>\<open>AcceptStream\<close>.
\<close>

theorem mux_offer_never_blocks:
  assumes "length (chan_buf ch) = chan_cap ch" and "failedCount < 5"
  shows "mux_loop c failedCount (AcceptStream (Inr stream) # evs) ch cl =
           mux_loop c failedCount evs ch (cl @ [MuxDeadlineStreamConn c stream])
       \<and> status (mux_loop c fc evs' ch' cl') \<noteq> BlockedOnQueue
       \<and> (status (mux_loop c fc evs' ch' cl') = LoopLeft
            \<or> unread (mux_loop c fc evs' ch' cl') = [])"
proof -
  have "mux_loop c failedCount (AcceptStream (Inr stream) # evs) ch cl =
           mux_loop c failedCount evs ch (cl @ [MuxDeadlineStreamConn c stream])"
    using assms select_send_full [of ch] by (simp add: Let_def)
  moreover have "status (mux_loop c fc evs' ch' cl') \<noteq> BlockedOnQueue"
    by (rule mux_loop_not_blocked)
  moreover have "status (mux_loop c fc evs' ch' cl') = LoopLeft
            \<or> unread (mux_loop c fc evs' ch' cl') = []"
    using mux_loop_unread [of c fc evs' ch' cl'] mux_loop_not_blocked [of c fc evs' ch' cl']
    by (cases "status (mux_loop c fc evs' ch' cl')") simp_all
  ultimately show ?thesis by blast
qed

theorem mux_offer_never_blocks_witness:
  "mux_loop (RawConn 0) 0 [AcceptStream (Inr 1), AcceptStream (Inr 2), AcceptStream (Inr 3)]
       \<lparr>chan_buf = [RawConn 7, RawConn 8], chan_cap = 2, chan_closed = False\<rparr> [] =
     \<lparr>failures = 0,
      queue = \<lparr>chan_buf = [RawConn 7, RawConn 8], chan_cap = 2, chan_closed = False\<rparr>,
      dropped = [MuxDeadlineStreamConn (RawConn 0) 1, MuxDeadlineStreamConn (RawConn 0) 2,
                 MuxDeadlineStreamConn (RawConn 0) 3],
      unread = [], status = AwaitingStream\<rparr>"
proof -
  have full: "length (chan_buf \<lparr>chan_buf = [RawConn 7, RawConn 8], chan_cap = 2,
      chan_closed = False\<rparr>) = chan_cap \<lparr>chan_buf = [RawConn 7, RawConn 8], chan_cap = 2,
      chan_closed = False\<rparr>"
    by simp
  have fc: "(0::int) < 5" by simp
  show ?thesis
    using mux_offer_never_blocks [OF full fc, of "RawConn 0" 1
        "[AcceptStream (Inr 2), AcceptStream (Inr 3)]" "[]" 0 "[]"
        "\<lparr>chan_buf = [], chan_cap = 2, chan_closed = False\<rparr>" "[]"]
    by (simp add: select_send_def)
qed

subsection \<open>The capacities of the server's channels\<close>

lemma server_step_caps:
  "chan_cap (connChan (server_step s op)) = chan_cap (connChan s)
   \<and> chan_cap (errChan (server_step s op)) = chan_cap (errChan s)"
proof (cases op)
  case (ServeFailed err)
  then show ?thesis by (auto simp: select_send_def)
next
  case ServeReturned
  then show ?thesis by (simp add: close_chan_def)
next
  case (StreamOffered cc)
  then show ?thesis by (auto simp: select_send_def)
next
  case (AcceptCalled b)
  then show ?thesis
    by (auto simp: Accept_def chan_recv_def split: option.splits list.splits if_splits)
qed

lemma server_run_caps:
  "chan_cap (connChan (foldl server_step s ops)) = chan_cap (connChan s)
   \<and> chan_cap (errChan (foldl server_step s ops)) = chan_cap (errChan s)"
  by (induction ops arbitrary: s) (simp_all add: server_step_caps)

text \<open>
  Claim C10. \<^verbatim>\<open>RunLocalMWSSServer\<close> makes the accept queue with capacity 1024 and the
  error channel with capacity 1, and after any sequence of the operations the file
  performs on them (offers, receives, the send and the close on the error channel) the
  capacities are still 1024 and 1.
\<close>

theorem server_channel_capacities:
  "chan_cap (connChan (new_server a)) = 1024
   \<and> chan_cap (errChan (new_server a)) = 1
   \<and> chan_cap (connChan (foldl server_step (new_server a) ops)) = 1024
   \<and> chan_cap (errChan (foldl server_step (new_server a) ops)) = 1"
  using server_run_caps [of "new_server a" ops]
  by (simp add: new_server_def make_chan_def)

subsection \<open>Slices, the scan and the frame of \<^verbatim>\<open>Dial\<close>\<close>

lemma append_slice_elems:
  assumes "wf_slice arrs sl" and "append_slice g arrs sl xs = (arrs', sl')"
  shows "slice_elems arrs' sl' = slice_elems arrs sl @ xs"
  using assms
  by (auto simp: append_slice_def wf_slice_def slice_elems_def slice_cap_def Let_def
           split: option.splits if_splits)

lemma append_slice_wf:
  assumes "wf_slice arrs sl" and "append_slice g arrs sl xs = (arrs', sl')"
  shows "wf_slice arrs' sl'"
  using assms
  by (auto simp: append_slice_def wf_slice_def slice_elems_def slice_cap_def Let_def
           split: option.splits if_splits)


lemma scan_fit:
  assumes "k < length ps" and "below_max h (ps ! k)" and "\<forall>j<k. at_capacity h (ps ! j)"
  shows "scan h ps i v = Some (ps ! k, i + k, True)"
  using assms
proof (induction ps arbitrary: k i v)
  case Nil
  then show ?case by simp
next
  case (Cons p ps)
  show ?case
  proof (cases k)
    case 0
    then show ?thesis using Cons.prems
      by (auto simp: below_max_def split: option.splits)
  next
    case (Suc k')
    have "at_capacity h p" using Cons.prems(3) Suc by auto
    moreover have "scan h ps (i + 1) (p, i, False) = Some (ps ! k', i + 1 + k', True)"
      using Cons.prems Suc by (intro Cons.IH) auto
    ultimately show ?thesis using Suc
      by (auto simp: at_capacity_def split: option.splits)
  qed
qed

lemma scan_none:
  assumes "ps \<noteq> []" and "\<forall>p\<in>set ps. at_capacity h p"
  shows "scan h ps i v = Some (last ps, i + length ps - 1, False)"
  using assms
proof (induction ps arbitrary: i v)
  case Nil
  then show ?case by simp
next
  case (Cons p ps)
  then show ?case
    by (cases ps) (auto simp: at_capacity_def split: option.splits)
qed

lemma evict_frame:
  assumes "evict e tr sl s i ok = Some (tr1, sl1, ok1)"
  shows "heap tr1 = heap tr \<and> events tr1 = events tr \<and> sessions tr1 = sessions tr
         \<and> (ok1 \<longrightarrow> ok \<and> (s = None \<or> (\<exists>q. s = Some q \<and> q < length (heap tr) \<and> \<not> closed (heap tr ! q))))"
  using assms
  by (auto simp: evict_def deref_def IsClosed_def Let_def split_beta
           split: option.splits if_splits)

lemma get_stream_events:
  "\<exists>mid. events (snd (get_stream e a tr sl s)) = events tr @ mid
     \<and> Lock \<notin> set mid \<and> Unlock \<notin> set mid
     \<and> (\<forall>q. OpenStream q \<in> set mid \<longrightarrow> s = Some q \<and> q < length (heap tr))"
  by (auto simp: get_stream_def GetConn_def deref_def split: option.splits sum.splits if_splits)

lemma initSession_frame:
  assumes "initSession e a tr = (r, tr')"
  shows "events tr' = events tr @ [WsDial a] \<and> arrays tr' = arrays tr \<and> sessions tr' = sessions tr
       \<and> (case r of Inl err \<Rightarrow> heap tr' = heap tr
           | Inr q \<Rightarrow> q = length (heap tr) \<and> (\<exists>s. heap tr' = heap tr @ [s] \<and> \<not> closed s \<and> streams s = 0
                 \<and> maxStreamCnt s = MaxMWSSStreamCnt e))"
  using assms
  by (auto simp: initSession_def Let_def split: sum.splits option.splits)

lemma create_and_get_events:
  "\<exists>mid. events (snd (create_and_get e a tr sl s ok)) = events tr @ mid
     \<and> Lock \<notin> set mid \<and> Unlock \<notin> set mid
     \<and> (\<forall>q. OpenStream q \<in> set mid \<longrightarrow>
           (if ok then s = Some q \<and> q < length (heap tr) else q = length (heap tr)))"
proof (cases ok)
  case True
  then show ?thesis using get_stream_events [of e a tr sl s]
    by (simp add: create_and_get_def)
next
  case False
  obtain r tr' where i: "initSession e a tr = (r, tr')" by (cases "initSession e a tr")
  note f = initSession_frame [OF i]
  show ?thesis
  proof (cases r)
    case (Inl err)
    then show ?thesis using False i f by (simp add: create_and_get_def)
  next
    case (Inr q)
    obtain arrs sl' where ap: "append_slice (grow e) (arrays tr') sl [Some q] = (arrs, sl')"
      by (cases "append_slice (grow e) (arrays tr') sl [Some q]")
    define tr2 where "tr2 = tr'\<lparr>arrays := arrs, steps := steps tr' @ [AppendSession q]\<rparr>"
    obtain mid where m: "events (snd (get_stream e a tr2 sl' (Some q))) =
        events tr2 @ mid" "Lock \<notin> set mid" "Unlock \<notin> set mid"
        "\<forall>q'. OpenStream q' \<in> set mid \<longrightarrow> Some q = Some q'"
      using get_stream_events [of e a tr2 sl' "Some q"] by blast
    have "events (snd (create_and_get e a tr sl s ok)) = events tr @ (WsDial a # mid)"
      using False i Inr ap m(1) f by (simp add: create_and_get_def tr2_def)
    moreover have "\<forall>q'. OpenStream q' \<in> set (WsDial a # mid) \<longrightarrow> q' = length (heap tr)"
      using m(4) f Inr by auto
    ultimately show ?thesis using m(2,3) False
      by (intro exI [of _ "WsDial a # mid"]) auto
  qed
qed

lemma dial_body_None:
  assumes "sessions tr a = None"
  shows "dial_body e a tr =
           create_and_get e a (tr\<lparr>steps := steps tr @ [LookupSessions a, ScanSessions]\<rparr>)
             nil_slice None False"
  using assms by (simp add: dial_body_def slice_elems_def nil_slice_def evict_def)

lemma dial_body_Some:
  assumes "sessions tr a = Some sl"
    and "scan (heap tr) (slice_elems (arrays tr) sl) 0 (None, 0, True) = Some (s, i, ok)"
    and "evict e (tr\<lparr>steps := steps tr @ [LookupSessions a, ScanSessions]\<rparr>) sl s i ok =
           Some (tr1, sl1, ok1)"
  shows "dial_body e a tr = create_and_get e a tr1 sl1 s ok1"
  using assms by (simp add: dial_body_def)

lemma dial_body_events:
  "\<exists>mid. events (snd (dial_body e a tr)) = events tr @ mid
     \<and> Lock \<notin> set mid \<and> Unlock \<notin> set mid
     \<and> (\<forall>q. OpenStream q \<in> set mid \<longrightarrow> q < length (heap tr) \<longrightarrow> \<not> closed (heap tr ! q))"
proof -
  define trS where "trS = tr\<lparr>steps := steps tr @ [LookupSessions a, ScanSessions]\<rparr>"
  have S: "heap trS = heap tr" "events trS = events tr"
    by (simp_all add: trS_def)
  show ?thesis
  proof (cases "sessions tr a")
    case None
    show ?thesis
      using create_and_get_events [of e a trS nil_slice None False] S
      by (auto simp: dial_body_None [OF None] trS_def [symmetric])
  next
    case (Some sl)
    show ?thesis
    proof (cases "scan (heap tr) (slice_elems (arrays tr) sl) 0 (None, 0, True)")
      case None
      then show ?thesis using Some by (simp add: dial_body_def)
    next
      case sc: (Some v)
      obtain s i ok where v: "v = (s, i, ok)" by (cases v)
      show ?thesis
      proof (cases "evict e trS sl s i ok")
        case None
        then show ?thesis using Some sc v by (simp add: dial_body_def trS_def)
      next
        case ev: (Some w)
        obtain tr1 sl1 ok1 where w: "w = (tr1, sl1, ok1)" by (cases w)
        note f = evict_frame [OF ev [unfolded w]]
        have b: "dial_body e a tr = create_and_get e a tr1 sl1 s ok1"
          using dial_body_Some [OF Some sc [unfolded v] ev [unfolded w trS_def]] .
        obtain mid where m: "events (snd (create_and_get e a tr1 sl1 s ok1)) = events tr1 @ mid"
          "Lock \<notin> set mid" "Unlock \<notin> set mid"
          "\<forall>q. OpenStream q \<in> set mid \<longrightarrow>
             (if ok1 then s = Some q \<and> q < length (heap tr1) else q = length (heap tr1))"
          using create_and_get_events [of e a tr1 sl1 s ok1] by blast
        have "\<forall>q. OpenStream q \<in> set mid \<longrightarrow> q < length (heap tr) \<longrightarrow> \<not> closed (heap tr ! q)"
          using m(4) f S by (auto split: if_splits)
        then show ?thesis using b m f S by auto
      qed
    qed
  qed
qed

lemma Dial_events:
  "\<exists>mid. events (snd (Dial e a tr)) = events tr @ Lock # mid @ [Unlock]
     \<and> Lock \<notin> set mid \<and> Unlock \<notin> set mid
     \<and> (\<forall>q. OpenStream q \<in> set mid \<longrightarrow> q < length (heap tr) \<longrightarrow> \<not> closed (heap tr ! q))"
proof -
  define trL where "trL = tr\<lparr>events := events tr @ [Lock], steps := steps tr @ [DoLock]\<rparr>"
  obtain mid where "events (snd (dial_body e a trL)) = events trL @ mid"
     "Lock \<notin> set mid" "Unlock \<notin> set mid"
     "\<forall>q. OpenStream q \<in> set mid \<longrightarrow> q < length (heap trL) \<longrightarrow> \<not> closed (heap trL ! q)"
    using dial_body_events [of e a trL] by blast
  then show ?thesis
    by (intro exI [of _ mid]) (simp add: Dial_def split_beta trL_def [symmetric], simp add: trL_def)
qed

lemma Dial_trace:
  "\<exists>mid. dial_trace e a tr = Lock # mid @ [Unlock]
     \<and> Lock \<notin> set mid \<and> Unlock \<notin> set mid
     \<and> (\<forall>q. OpenStream q \<in> set mid \<longrightarrow> q < length (heap tr) \<longrightarrow> \<not> closed (heap tr ! q))"
  using Dial_events [of e a tr] by (auto simp: dial_trace_def)

lemma get_stream_closed:
  assumes "q < length (heap tr)" and "closed (heap tr ! q)"
  shows "q < length (heap (snd (get_stream e a tr sl s))) \<and> closed (heap (snd (get_stream e a tr sl s)) ! q)"
  using assms
  by (auto simp: get_stream_def GetConn_def Close_def deref_def nth_list_update
           split: option.splits sum.splits if_splits)

lemma create_and_get_closed:
  assumes "q < length (heap tr)" and "closed (heap tr ! q)"
  shows "q < length (heap (snd (create_and_get e a tr sl s ok)))
       \<and> closed (heap (snd (create_and_get e a tr sl s ok)) ! q)"
proof (cases ok)
  case True
  then show ?thesis using get_stream_closed [OF assms] by (simp add: create_and_get_def)
next
  case False
  obtain r tr' where i: "initSession e a tr = (r, tr')" by (cases "initSession e a tr")
  note f = initSession_frame [OF i]
  show ?thesis
  proof (cases r)
    case (Inl err)
    then show ?thesis using False i f assms by (simp add: create_and_get_def)
  next
    case (Inr q')
    obtain arrs sl' where ap: "append_slice (grow e) (arrays tr') sl [Some q'] = (arrs, sl')"
      by (cases "append_slice (grow e) (arrays tr') sl [Some q']")
    define tr2 where "tr2 = tr'\<lparr>arrays := arrs, steps := steps tr' @ [AppendSession q']\<rparr>"
    have "q < length (heap tr2)" "closed (heap tr2 ! q)"
      using f Inr assms by (auto simp: nth_append tr2_def)
    then show ?thesis
      using get_stream_closed [of q tr2 e a sl' "Some q'"] False i Inr ap
      by (simp add: create_and_get_def tr2_def)
  qed
qed

lemma dial_body_closed:
  assumes "q < length (heap tr)" and "closed (heap tr ! q)"
  shows "q < length (heap (snd (dial_body e a tr))) \<and> closed (heap (snd (dial_body e a tr)) ! q)"
proof -
  define trS where "trS = tr\<lparr>steps := steps tr @ [LookupSessions a, ScanSessions]\<rparr>"
  have S: "q < length (heap trS)" "closed (heap trS ! q)"
    using assms by (simp_all add: trS_def)
  show ?thesis
  proof (cases "sessions tr a")
    case None
    show ?thesis
      using create_and_get_closed [OF S] by (simp add: dial_body_None [OF None] trS_def)
  next
    case (Some sl)
    show ?thesis
    proof (cases "scan (heap tr) (slice_elems (arrays tr) sl) 0 (None, 0, True)")
      case None
      then show ?thesis using Some assms by (simp add: dial_body_def)
    next
      case sc: (Some v)
      obtain s i ok where v: "v = (s, i, ok)" by (cases v)
      show ?thesis
      proof (cases "evict e trS sl s i ok")
        case None
        then show ?thesis using Some sc v assms by (simp add: dial_body_def trS_def)
      next
        case ev: (Some w)
        obtain tr1 sl1 ok1 where w: "w = (tr1, sl1, ok1)" by (cases w)
        note f = evict_frame [OF ev [unfolded w]]
        have b: "dial_body e a tr = create_and_get e a tr1 sl1 s ok1"
          using dial_body_Some [OF Some sc [unfolded v] ev [unfolded w trS_def]] .
        show ?thesis
          using create_and_get_closed [of q tr1 e a sl1 s ok1] S f b by simp
      qed
    qed
  qed
qed

lemma Dial_closed:
  assumes "q < length (heap tr)" and "closed (heap tr ! q)"
  shows "q < length (heap (snd (Dial e a tr))) \<and> closed (heap (snd (Dial e a tr)) ! q)"
  using dial_body_closed [of q "tr\<lparr>events := events tr @ [Lock], steps := steps tr @ [DoLock]\<rparr>" e a]
    assms
  by (simp add: Dial_def split_beta)

lemma scan_index:
  assumes "scan h ps i v = Some (s, k, ok)"
  shows "(ps = [] \<and> v = (s, k, ok))
       \<or> (i \<le> k \<and> k < i + length ps \<and> ps ! (k - i) = s \<and> deref h s \<noteq> None)"
  using assms
proof (induction ps arbitrary: i v)
  case Nil
  then show ?case by simp
next
  case (Cons p ps)
  show ?case
  proof (cases "deref h p")
    case None
    then show ?thesis using Cons.prems by simp
  next
    case (Some st)
    show ?thesis
    proof (cases "NumStreams st \<ge> maxStreamCnt st")
      case False
      then show ?thesis using Cons.prems Some by auto
    next
      case True
      then have r: "scan h ps (i + 1) (p, i, False) = Some (s, k, ok)"
        using Cons.prems Some by simp
      show ?thesis
        using Cons.IH [OF r] Some
        by (auto simp: nth_Cons')
    qed
  qed
qed

lemma evict_open:
  assumes "deref (heap tr) (Some q) = Some st" and "\<not> closed st"
  shows "evict e tr sl (Some q) i ok = Some (tr, sl, ok)"
  using assms by (simp add: evict_def IsClosed_def)

lemma evict_closed:
  assumes wf: "wf_slice (arrays tr) sl" and i: "i < slice_len sl"
    and d: "deref (heap tr) (Some q) = Some st" and c: "closed st"
  shows "\<exists>arrs sl'. evict e tr sl (Some q) i ok =
               Some (tr\<lparr>arrays := arrs, steps := steps tr @ [EvictSession i]\<rparr>, sl', False)
           \<and> wf_slice arrs sl'
           \<and> slice_elems arrs sl' =
               take i (slice_elems (arrays tr) sl) @ drop (Suc i) (slice_elems (arrays tr) sl)"
proof -
  define slt where "slt = sl\<lparr>slice_len := i\<rparr>"
  obtain arrs sl' where ap: "append_slice (grow e) (arrays tr) slt
      (drop (i + 1) (slice_elems (arrays tr) sl)) = (arrs, sl')"
    by (cases "append_slice (grow e) (arrays tr) slt (drop (i + 1) (slice_elems (arrays tr) sl))")
  have wft: "wf_slice (arrays tr) slt"
    using wf i by (auto simp: wf_slice_def slt_def split: option.splits)
  have cap: "i \<le> slice_cap (arrays tr) sl"
    using wf i by (auto simp: wf_slice_def slice_cap_def split: option.splits)
  have el: "slice_elems (arrays tr) slt = take i (slice_elems (arrays tr) sl)"
    using i by (auto simp: slice_elems_def slt_def min_def split: option.splits)
  have ev: "evict e tr sl (Some q) i ok =
      Some (tr\<lparr>arrays := arrs, steps := steps tr @ [EvictSession i]\<rparr>, sl', False)"
    using d c cap i ap by (simp add: evict_def IsClosed_def slt_def)
  have "slice_elems arrs sl' =
      take i (slice_elems (arrays tr) sl) @ drop (Suc i) (slice_elems (arrays tr) sl)"
    using append_slice_elems [OF wft ap] el by simp
  then show ?thesis
    using ev append_slice_wf [OF wft ap] by blast
qed

lemma get_stream_ok:
  assumes "deref (heap tr) (Some q) = Some st" and "open_stream e = Inr n"
  shows "get_stream e a tr sl (Some q) =
           (DialOk (MuxDeadlineStreamConn (physical st) n),
            tr\<lparr>heap := (heap tr)[q := st\<lparr>streams := streams st + 1\<rparr>],
               sessions := (sessions tr)(a \<mapsto> sl),
               events := events tr @ [OpenStream q],
               steps := steps tr @ [RequestStream q, PersistSessions a]\<rparr>)"
  using assms by (simp add: get_stream_def GetConn_def)

lemma get_stream_fail:
  assumes "deref (heap tr) (Some q) = Some st" and "open_stream e = Inl err"
  shows "get_stream e a tr sl (Some q) =
           (DialErr err,
            tr\<lparr>heap := (heap tr)[q := st\<lparr>closed := True\<rparr>],
               events := events tr @ [OpenStream q, CloseSession q],
               steps := steps tr @ [RequestStream q, CloseFailed q]\<rparr>)"
  using assms by (simp add: get_stream_def GetConn_def Close_def)

lemma create_new_ok:
  assumes wf: "wf_slice (arrays tr) sl"
    and net: "ws_dial e = Inr rc" "smux_client e = None" "open_stream e = Inr n"
  shows "\<exists>tr' sl'. create_and_get e a tr sl s False =
             (DialOk (MuxDeadlineStreamConn (DeadLinerConn (RawConn rc)) n), tr')
         \<and> heap tr' = heap tr @ [\<lparr>physical = DeadLinerConn (RawConn rc),
               maxStreamCnt = MaxMWSSStreamCnt e, streams = 1, closed = False\<rparr>]
         \<and> sessions tr' = (sessions tr)(a \<mapsto> sl')
         \<and> wf_slice (arrays tr') sl'
         \<and> slice_elems (arrays tr') sl' = slice_elems (arrays tr) sl @ [Some (length (heap tr))]
         \<and> events tr' = events tr @ [WsDial a, OpenStream (length (heap tr))]"
proof -
  define q where "q = length (heap tr)"
  define new where "new = \<lparr>physical = DeadLinerConn (RawConn rc),
      maxStreamCnt = MaxMWSSStreamCnt e, streams = 0, closed = False\<rparr>"
  define tr1 where "tr1 = tr\<lparr>events := events tr @ [WsDial a],
      steps := steps tr @ [OpenSession a], heap := heap tr @ [new]\<rparr>"
  have init: "initSession e a tr = (Inr q, tr1)"
    using net by (simp add: initSession_def Let_def q_def tr1_def new_def)
  obtain arrs sl' where ap: "append_slice (grow e) (arrays tr1) sl [Some q] = (arrs, sl')"
    by (cases "append_slice (grow e) (arrays tr1) sl [Some q]")
  define tr2 where "tr2 = tr1\<lparr>arrays := arrs, steps := steps tr1 @ [AppendSession q]\<rparr>"
  define tr3 where "tr3 = tr2\<lparr>heap := (heap tr2)[q := new\<lparr>streams := streams new + 1\<rparr>],
      sessions := (sessions tr2)(a \<mapsto> sl'),
      events := events tr2 @ [OpenStream q],
      steps := steps tr2 @ [RequestStream q, PersistSessions a]\<rparr>"
  have wf1: "wf_slice (arrays tr1) sl" using wf by (simp add: tr1_def)
  have d: "deref (heap tr2) (Some q) = Some new"
    by (simp add: deref_def tr2_def tr1_def q_def)
  have "create_and_get e a tr sl s False = get_stream e a tr2 sl' (Some q)"
    using init ap by (simp add: create_and_get_def tr2_def)
  then have c: "create_and_get e a tr sl s False =
      (DialOk (MuxDeadlineStreamConn (DeadLinerConn (RawConn rc)) n), tr3)"
    using get_stream_ok [OF d net(3), of a sl'] by (simp add: tr3_def new_def)
  have w: "wf_slice (arrays tr3) sl'"
    using append_slice_wf [OF wf1 ap] by (simp add: tr3_def tr2_def)
  have el: "slice_elems (arrays tr3) sl' = slice_elems (arrays tr) sl @ [Some (length (heap tr))]"
    using append_slice_elems [OF wf1 ap] by (simp add: tr3_def tr2_def tr1_def q_def)
  have rest: "heap tr3 = heap tr @ [\<lparr>physical = DeadLinerConn (RawConn rc),
               maxStreamCnt = MaxMWSSStreamCnt e, streams = 1, closed = False\<rparr>]"
      "sessions tr3 = (sessions tr)(a \<mapsto> sl')"
      "events tr3 = events tr @ [WsDial a, OpenStream (length (heap tr))]"
    by (simp_all add: tr3_def tr2_def tr1_def new_def q_def)
  show ?thesis
    unfolding c
    by (intro exI [of _ tr3] exI [of _ sl']) (simp add: w el rest)
qed

lemma Dial_via_body:
  "Dial e a tr =
     (fst (dial_body e a (tr\<lparr>events := events tr @ [Lock], steps := steps tr @ [DoLock]\<rparr>)),
      (snd (dial_body e a (tr\<lparr>events := events tr @ [Lock], steps := steps tr @ [DoLock]\<rparr>)))
        \<lparr>events := events (snd (dial_body e a
             (tr\<lparr>events := events tr @ [Lock], steps := steps tr @ [DoLock]\<rparr>))) @ [Unlock],
         steps := steps (snd (dial_body e a
             (tr\<lparr>events := events tr @ [Lock], steps := steps tr @ [DoLock]\<rparr>))) @ [DoUnlock]\<rparr>)"
  by (simp add: Dial_def split_beta)

lemma Dial_absent:
  assumes none: "sessions tr a = None"
    and net: "ws_dial e = Inr rc" "smux_client e = None" "open_stream e = Inr n"
  shows "\<exists>tr' sl'. Dial e a tr =
             (DialOk (MuxDeadlineStreamConn (DeadLinerConn (RawConn rc)) n), tr')
         \<and> heap tr' = heap tr @ [\<lparr>physical = DeadLinerConn (RawConn rc),
               maxStreamCnt = MaxMWSSStreamCnt e, streams = 1, closed = False\<rparr>]
         \<and> sessions tr' = (sessions tr)(a \<mapsto> sl')
         \<and> wf_slice (arrays tr') sl'
         \<and> slice_elems (arrays tr') sl' = [Some (length (heap tr))]
         \<and> events tr' = events tr @ [Lock, WsDial a, OpenStream (length (heap tr)), Unlock]"
proof -
  define trL where "trL = tr\<lparr>events := events tr @ [Lock], steps := steps tr @ [DoLock]\<rparr>"
  define trS where "trS = trL\<lparr>steps := steps trL @ [LookupSessions a, ScanSessions]\<rparr>"
  have wf: "wf_slice (arrays trS) nil_slice"
    by (simp add: wf_slice_def nil_slice_def)
  have b: "dial_body e a trL = create_and_get e a trS nil_slice None False"
    unfolding trS_def using none by (intro dial_body_None) (simp add: trL_def)
  obtain tr' sl' where c: "create_and_get e a trS nil_slice None False =
        (DialOk (MuxDeadlineStreamConn (DeadLinerConn (RawConn rc)) n), tr')"
      "heap tr' = heap trS @ [\<lparr>physical = DeadLinerConn (RawConn rc),
               maxStreamCnt = MaxMWSSStreamCnt e, streams = 1, closed = False\<rparr>]"
      "sessions tr' = (sessions trS)(a \<mapsto> sl')"
      "wf_slice (arrays tr') sl'"
      "slice_elems (arrays tr') sl' = slice_elems (arrays trS) nil_slice @ [Some (length (heap trS))]"
      "events tr' = events trS @ [WsDial a, OpenStream (length (heap trS))]"
    using create_new_ok [OF wf net, of a None] by blast
  have D: "Dial e a tr = (DialOk (MuxDeadlineStreamConn (DeadLinerConn (RawConn rc)) n),
      tr'\<lparr>events := events tr' @ [Unlock], steps := steps tr' @ [DoUnlock]\<rparr>)"
    using b c(1) by (simp add: Dial_via_body trL_def)
  show ?thesis
    unfolding D
    using c(2-6)
    by (intro exI [of _ "tr'\<lparr>events := events tr' @ [Unlock], steps := steps tr' @ [DoUnlock]\<rparr>"]
          exI [of _ sl'])
       (simp add: trS_def trL_def slice_elems_def nil_slice_def)
qed

lemma Dial_reuse:
  assumes pool: "sessions tr a = Some sl" "slice_elems (arrays tr) sl = ps"
    and k: "k < length ps" "ps ! k = Some q" "below_max (heap tr) (ps ! k)"
       "\<forall>j<k. at_capacity (heap tr) (ps ! j)"
    and op: "\<not> is_closed_at (heap tr) (ps ! k)"
  shows "open_stream e = Inr n \<longrightarrow> Dial e a tr =
           (DialOk (MuxDeadlineStreamConn (physical (heap tr ! q)) n),
            tr\<lparr>heap := (heap tr)[q := (heap tr ! q)\<lparr>streams := streams (heap tr ! q) + 1\<rparr>],
               sessions := (sessions tr)(a \<mapsto> sl),
               events := events tr @ [Lock, OpenStream q, Unlock],
               steps := steps tr @ [DoLock, LookupSessions a, ScanSessions, RequestStream q,
                 PersistSessions a, DoUnlock]\<rparr>)"
    and "open_stream e = Inl err \<longrightarrow> Dial e a tr =
           (DialErr err,
            tr\<lparr>heap := (heap tr)[q := (heap tr ! q)\<lparr>closed := True\<rparr>],
               events := events tr @ [Lock, OpenStream q, CloseSession q, Unlock],
               steps := steps tr @ [DoLock, LookupSessions a, ScanSessions, RequestStream q,
                 CloseFailed q, DoUnlock]\<rparr>)"
proof -
  define trL where "trL = tr\<lparr>events := events tr @ [Lock], steps := steps tr @ [DoLock]\<rparr>"
  define trS where "trS = trL\<lparr>steps := steps trL @ [LookupSessions a, ScanSessions]\<rparr>"
  have d: "deref (heap trS) (Some q) = Some (heap tr ! q)"
    using k(2,3) by (auto simp: below_max_def deref_def trS_def trL_def split: if_splits)
  have nc: "\<not> closed (heap tr ! q)"
    using op d k(2) by (simp add: is_closed_at_def IsClosed_def trS_def trL_def)
  have sc: "scan (heap trL) (slice_elems (arrays trL) sl) 0 (None, 0, True) = Some (Some q, k, True)"
    using scan_fit [OF k(1,3,4), of 0 "(None, 0, True)"] pool(2) k(2) by (simp add: trL_def)
  have ev: "evict e trS sl (Some q) k True = Some (trS, sl, True)"
    using evict_open [OF d nc] .
  have b: "dial_body e a trL = get_stream e a trS sl (Some q)"
    using dial_body_Some [OF _ sc ev [unfolded trS_def]] pool(1)
    by (simp add: trL_def trS_def create_and_get_def)
  show "open_stream e = Inr n \<longrightarrow> Dial e a tr =
           (DialOk (MuxDeadlineStreamConn (physical (heap tr ! q)) n),
            tr\<lparr>heap := (heap tr)[q := (heap tr ! q)\<lparr>streams := streams (heap tr ! q) + 1\<rparr>],
               sessions := (sessions tr)(a \<mapsto> sl),
               events := events tr @ [Lock, OpenStream q, Unlock],
               steps := steps tr @ [DoLock, LookupSessions a, ScanSessions, RequestStream q,
                 PersistSessions a, DoUnlock]\<rparr>)"
    using get_stream_ok [OF d, of e n a sl] b
    by (simp add: Dial_via_body trL_def [symmetric]) (simp add: trS_def trL_def)
  show "open_stream e = Inl err \<longrightarrow> Dial e a tr =
           (DialErr err,
            tr\<lparr>heap := (heap tr)[q := (heap tr ! q)\<lparr>closed := True\<rparr>],
               events := events tr @ [Lock, OpenStream q, CloseSession q, Unlock],
               steps := steps tr @ [DoLock, LookupSessions a, ScanSessions, RequestStream q,
                 CloseFailed q, DoUnlock]\<rparr>)"
    using get_stream_fail [OF d, of e err a sl] b
    by (simp add: Dial_via_body trL_def [symmetric]) (simp add: trS_def trL_def)
qed

lemma Dial_create:
  assumes pool: "sessions tr a = Some sl" "wf_slice (arrays tr) sl" "slice_elems (arrays tr) sl = ps"
    and sc: "scan (heap tr) ps 0 (None, 0, True) = Some (s, k, ok)"
    and no: "\<not> ok \<or> is_closed_at (heap tr) s"
    and net: "ws_dial e = Inr rc" "smux_client e = None" "open_stream e = Inr n"
  shows "\<exists>tr' sl'. Dial e a tr =
             (DialOk (MuxDeadlineStreamConn (DeadLinerConn (RawConn rc)) n), tr')
         \<and> heap tr' = heap tr @ [\<lparr>physical = DeadLinerConn (RawConn rc),
               maxStreamCnt = MaxMWSSStreamCnt e, streams = 1, closed = False\<rparr>]
         \<and> sessions tr' = (sessions tr)(a \<mapsto> sl')
         \<and> wf_slice (arrays tr') sl'
         \<and> slice_elems (arrays tr') sl' =
             (if is_closed_at (heap tr) s then take k ps @ drop (Suc k) ps else ps)
               @ [Some (length (heap tr))]
         \<and> events tr' = events tr @ [Lock, WsDial a, OpenStream (length (heap tr)), Unlock]"
proof -
  define trL where "trL = tr\<lparr>events := events tr @ [Lock], steps := steps tr @ [DoLock]\<rparr>"
  define trS where "trS = trL\<lparr>steps := steps trL @ [LookupSessions a, ScanSessions]\<rparr>"
  have scL: "scan (heap trL) (slice_elems (arrays trL) sl) 0 (None, 0, True) = Some (s, k, ok)"
    using sc pool(3) by (simp add: trL_def)
  have "\<exists>tr1 sl1. evict e trS sl s k ok = Some (tr1, sl1, ok \<and> \<not> is_closed_at (heap tr) s)
      \<and> heap tr1 = heap tr \<and> events tr1 = events trL \<and> sessions tr1 = sessions tr
      \<and> wf_slice (arrays tr1) sl1
      \<and> slice_elems (arrays tr1) sl1 =
          (if is_closed_at (heap tr) s then take k ps @ drop (Suc k) ps else ps)"
  proof (cases "is_closed_at (heap tr) s")
    case False
    have "s = None \<or> deref (heap tr) s \<noteq> None"
      using scan_index [OF sc] by auto
    then have "evict e trS sl s k ok = Some (trS, sl, ok)"
      using False
      by (auto simp: evict_def is_closed_at_def trS_def trL_def split: option.splits)
    then show ?thesis using False pool by (simp add: trS_def trL_def)
  next
    case True
    then obtain q st where q: "s = Some q" "deref (heap trS) (Some q) = Some st" "closed st"
      by (cases s)
         (auto simp: is_closed_at_def IsClosed_def trS_def trL_def deref_def
               split: option.splits if_splits)
    have "ps \<noteq> []" using scan_index [OF sc] q(1) by auto
    then have kk: "k < slice_len sl"
      using scan_index [OF sc] pool(3) by (auto simp: slice_elems_def split: option.splits)
    have wfS: "wf_slice (arrays trS) sl" using pool(2) by (simp add: trS_def trL_def)
    obtain arrs sl' where e: "evict e trS sl (Some q) k ok =
           Some (trS\<lparr>arrays := arrs, steps := steps trS @ [EvictSession k]\<rparr>, sl', False)"
        "wf_slice arrs sl'"
        "slice_elems arrs sl' =
           take k (slice_elems (arrays trS) sl) @ drop (Suc k) (slice_elems (arrays trS) sl)"
      using evict_closed [OF wfS kk q(2,3), of e ok] by blast
    show ?thesis
      using e True q(1) pool(3)
      by (intro exI [of _ "trS\<lparr>arrays := arrs, steps := steps trS @ [EvictSession k]\<rparr>"]
            exI [of _ sl'])
         (simp add: trS_def trL_def)
  qed
  then obtain tr1 sl1 where e: "evict e trS sl s k ok = Some (tr1, sl1, ok \<and> \<not> is_closed_at (heap tr) s)"
      "heap tr1 = heap tr" "events tr1 = events trL" "sessions tr1 = sessions tr"
      "wf_slice (arrays tr1) sl1"
      "slice_elems (arrays tr1) sl1 =
          (if is_closed_at (heap tr) s then take k ps @ drop (Suc k) ps else ps)"
    by blast
  have okF: "(ok \<and> \<not> is_closed_at (heap tr) s) = False" using no by auto
  have b: "dial_body e a trL = create_and_get e a tr1 sl1 s False"
    using dial_body_Some [OF _ scL e(1) [unfolded okF trS_def]] pool(1) by (simp add: trL_def)
  obtain tr' sl' where c: "create_and_get e a tr1 sl1 s False =
        (DialOk (MuxDeadlineStreamConn (DeadLinerConn (RawConn rc)) n), tr')"
      "heap tr' = heap tr1 @ [\<lparr>physical = DeadLinerConn (RawConn rc),
               maxStreamCnt = MaxMWSSStreamCnt e, streams = 1, closed = False\<rparr>]"
      "sessions tr' = (sessions tr1)(a \<mapsto> sl')"
      "wf_slice (arrays tr') sl'"
      "slice_elems (arrays tr') sl' = slice_elems (arrays tr1) sl1 @ [Some (length (heap tr1))]"
      "events tr' = events tr1 @ [WsDial a, OpenStream (length (heap tr1))]"
    using create_new_ok [OF e(5) net, of a s] by blast
  have D: "Dial e a tr = (DialOk (MuxDeadlineStreamConn (DeadLinerConn (RawConn rc)) n),
      tr'\<lparr>events := events tr' @ [Unlock], steps := steps tr' @ [DoUnlock]\<rparr>)"
    using b c(1) by (simp add: Dial_via_body trL_def)
  show ?thesis
    unfolding D
    using c(2-6) e(2-6)
    by (intro exI [of _ "tr'\<lparr>events := events tr' @ [Unlock], steps := steps tr' @ [DoUnlock]\<rparr>"]
          exI [of _ sl'])
       (simp add: trL_def)
qed

lemma recorded_Some:
  "sessions tr a = Some sl \<Longrightarrow> recorded tr a = Some (slice_elems (arrays tr) sl)"
  by (simp add: recorded_def)

lemma three_dials:
  fixes g :: "nat \<Rightarrow> nat \<Rightarrow> nat" and rc1 rc2 rc3 n1 n2 n3 :: nat
  defines "e1 \<equiv> \<lparr>MaxMWSSStreamCnt = 2, grow = g, ws_dial = Inr rc1, smux_client = None,
                 open_stream = Inr n1\<rparr>"
    and "e2 \<equiv> \<lparr>MaxMWSSStreamCnt = 2, grow = g, ws_dial = Inr rc2, smux_client = None,
                 open_stream = Inr n2\<rparr>"
    and "e3 \<equiv> \<lparr>MaxMWSSStreamCnt = 2, grow = g, ws_dial = Inr rc3, smux_client = None,
                 open_stream = Inr n3\<rparr>"
  shows "fst (dials [e1, e2, e3] a NewMWSSTransporter) =
           [DialOk (MuxDeadlineStreamConn (DeadLinerConn (RawConn rc1)) n1),
            DialOk (MuxDeadlineStreamConn (DeadLinerConn (RawConn rc1)) n2),
            DialOk (MuxDeadlineStreamConn (DeadLinerConn (RawConn rc3)) n3)]
       \<and> heap (snd (dials [e1, e2, e3] a NewMWSSTransporter)) =
           [\<lparr>physical = DeadLinerConn (RawConn rc1), maxStreamCnt = 2, streams = 2, closed = False\<rparr>,
            \<lparr>physical = DeadLinerConn (RawConn rc3), maxStreamCnt = 2, streams = 1, closed = False\<rparr>]
       \<and> recorded (snd (dials [e1, e2, e3] a NewMWSSTransporter)) a = Some [Some 0, Some 1]
       \<and> events (snd (dials [e1, e2, e3] a NewMWSSTransporter)) =
           [Lock, WsDial a, OpenStream 0, Unlock, Lock, OpenStream 0, Unlock,
            Lock, WsDial a, OpenStream 1, Unlock]"
proof -
  define s1 where "s1 = \<lparr>physical = DeadLinerConn (RawConn rc1), maxStreamCnt = 2,
      streams = 1, closed = False\<rparr>"
  have none: "sessions NewMWSSTransporter a = None"
    by (simp add: NewMWSSTransporter_def)
  obtain tr1 sl1 where d1: "Dial e1 a NewMWSSTransporter =
        (DialOk (MuxDeadlineStreamConn (DeadLinerConn (RawConn rc1)) n1), tr1)"
      "heap tr1 = [s1]" "sessions tr1 a = Some sl1" "wf_slice (arrays tr1) sl1"
      "slice_elems (arrays tr1) sl1 = [Some 0]"
      "events tr1 = [Lock, WsDial a, OpenStream 0, Unlock]"
    using Dial_absent [OF none, of e1 rc1 n1]
    by (auto simp: e1_def NewMWSSTransporter_def s1_def)
  define tr2 where "tr2 = tr1\<lparr>heap := [s1\<lparr>streams := 2\<rparr>],
      sessions := (sessions tr1)(a \<mapsto> sl1),
      events := events tr1 @ [Lock, OpenStream 0, Unlock],
      steps := steps tr1 @ [DoLock, LookupSessions a, ScanSessions, RequestStream 0,
        PersistSessions a, DoUnlock]\<rparr>"
  have d2: "Dial e2 a tr1 = (DialOk (MuxDeadlineStreamConn (DeadLinerConn (RawConn rc1)) n2), tr2)"
    using Dial_reuse(1) [OF d1(3,5), of 0 0 e2 n2] d1(2)
    by (simp add: below_max_def is_closed_at_def deref_def NumStreams_def IsClosed_def
        s1_def e2_def tr2_def)
  have p2: "sessions tr2 a = Some sl1" "wf_slice (arrays tr2) sl1"
      "slice_elems (arrays tr2) sl1 = [Some 0]"
    using d1(4,5) by (simp_all add: tr2_def)
  have sc: "scan (heap tr2) [Some 0] 0 (None, 0, True) = Some (Some 0, 0, False)"
    by (simp add: tr2_def deref_def NumStreams_def s1_def)
  have nc: "\<not> is_closed_at (heap tr2) (Some 0)"
    by (simp add: tr2_def is_closed_at_def deref_def IsClosed_def s1_def)
  obtain tr3 sl3 where d3: "Dial e3 a tr2 =
        (DialOk (MuxDeadlineStreamConn (DeadLinerConn (RawConn rc3)) n3), tr3)"
      "heap tr3 = heap tr2 @ [\<lparr>physical = DeadLinerConn (RawConn rc3),
               maxStreamCnt = 2, streams = 1, closed = False\<rparr>]"
      "sessions tr3 a = Some sl3"
      "slice_elems (arrays tr3) sl3 = [Some 0, Some 1]"
      "events tr3 = events tr2 @ [Lock, WsDial a, OpenStream 1, Unlock]"
    using Dial_create [OF p2 sc, of e3 rc3 n3] nc
    by (auto simp: e3_def tr2_def)
  have "dials [e1, e2, e3] a NewMWSSTransporter =
      ([DialOk (MuxDeadlineStreamConn (DeadLinerConn (RawConn rc1)) n1),
        DialOk (MuxDeadlineStreamConn (DeadLinerConn (RawConn rc1)) n2),
        DialOk (MuxDeadlineStreamConn (DeadLinerConn (RawConn rc3)) n3)], tr3)"
    using d1(1) d2 d3(1) by simp
  then show ?thesis
    using d3(2,5) recorded_Some [OF d3(3)] d3(4) d1(6)
    by (simp add: tr2_def s1_def)
qed

lemma dials_closed:
  assumes "q < length (heap tr)" and "closed (heap tr ! q)"
  shows "\<exists>mid. events (snd (dials es a tr)) = events tr @ mid \<and> OpenStream q \<notin> set mid
           \<and> q < length (heap (snd (dials es a tr)))
           \<and> closed (heap (snd (dials es a tr)) ! q)"
  using assms
proof (induction es arbitrary: tr)
  case Nil
  then show ?case by simp
next
  case (Cons e es)
  obtain r tr' where d: "Dial e a tr = (r, tr')" by (cases "Dial e a tr")
  obtain m1 where m1: "events tr' = events tr @ Lock # m1 @ [Unlock]"
      "\<forall>q. OpenStream q \<in> set m1 \<longrightarrow> q < length (heap tr) \<longrightarrow> \<not> closed (heap tr ! q)"
    using Dial_events [of e a tr] d by auto
  have c: "q < length (heap tr')" "closed (heap tr' ! q)"
    using Dial_closed [OF Cons.prems, of e a] d by simp_all
  obtain m2 where m2: "events (snd (dials es a tr')) = events tr' @ m2" "OpenStream q \<notin> set m2"
      "q < length (heap (snd (dials es a tr')))" "closed (heap (snd (dials es a tr')) ! q)"
    using Cons.IH [OF c] by blast
  have "OpenStream q \<notin> set (Lock # m1 @ [Unlock] @ m2)"
    using m1(2) m2(2) Cons.prems by auto
  moreover have "events (snd (dials (e # es) a tr)) = events tr @ (Lock # m1 @ [Unlock] @ m2)"
    using d m1(1) m2(1) by (simp add: split_beta)
  moreover have "snd (dials (e # es) a tr) = snd (dials es a tr')"
    using d by (simp add: split_beta)
  ultimately show ?case using m2(3,4) by (intro exI [of _ "Lock # m1 @ [Unlock] @ m2"]) simp
qed












lemma evict_steps:
  assumes "evict e tr sl s i ok = Some (tr1, sl1, ok1)"
  shows "\<exists>ss. steps tr1 = steps tr @ ss \<and> List.map_filter event_of ss = []
           \<and> DoLock \<notin> set ss \<and> DoUnlock \<notin> set ss"
  using assms
  by (auto simp: evict_def Let_def split_beta List.map_filter_simps
           split: option.splits if_splits)

lemma get_stream_steps:
  "\<exists>ss. steps (snd (get_stream e a tr sl s)) = steps tr @ ss
     \<and> events (snd (get_stream e a tr sl s)) = events tr @ List.map_filter event_of ss
     \<and> DoLock \<notin> set ss \<and> DoUnlock \<notin> set ss"
  by (auto simp: get_stream_def GetConn_def List.map_filter_simps
           split: option.splits sum.splits)

lemma initSession_steps:
  assumes "initSession e a tr = (r, tr')"
  shows "steps tr' = steps tr @ [OpenSession a]"
  using assms by (auto simp: initSession_def Let_def split: sum.splits option.splits)

lemma map_filter_append:
  "List.map_filter f (xs @ ys) = List.map_filter f xs @ List.map_filter f ys"
  by (simp add: List.map_filter_def)

lemma create_and_get_steps:
  "\<exists>ss. steps (snd (create_and_get e a tr sl s ok)) = steps tr @ ss
     \<and> events (snd (create_and_get e a tr sl s ok)) = events tr @ List.map_filter event_of ss
     \<and> DoLock \<notin> set ss \<and> DoUnlock \<notin> set ss"
proof (cases ok)
  case True
  then show ?thesis using get_stream_steps [of e a tr sl s]
    by (simp add: create_and_get_def)
next
  case False
  obtain r tr' where i: "initSession e a tr = (r, tr')" by (cases "initSession e a tr")
  note f = initSession_frame [OF i] initSession_steps [OF i]
  show ?thesis
  proof (cases r)
    case (Inl err)
    have "steps tr' = steps tr @ [OpenSession a]
        \<and> events tr' = events tr @ List.map_filter event_of [OpenSession a]
        \<and> DoLock \<notin> set [OpenSession a] \<and> DoUnlock \<notin> set [OpenSession a]"
      using f by (simp add: List.map_filter_simps)
    then show ?thesis using False i Inl by (auto simp: create_and_get_def)
  next
    case (Inr q)
    obtain arrs sl' where ap: "append_slice (grow e) (arrays tr') sl [Some q] = (arrs, sl')"
      by (cases "append_slice (grow e) (arrays tr') sl [Some q]")
    define tr2 where "tr2 = tr'\<lparr>arrays := arrs, steps := steps tr' @ [AppendSession q]\<rparr>"
    have c: "create_and_get e a tr sl s ok = get_stream e a tr2 sl' (Some q)"
      using False i Inr ap by (simp add: create_and_get_def tr2_def)
    obtain ss where m: "steps (snd (get_stream e a tr2 sl' (Some q))) = steps tr2 @ ss"
        "events (snd (get_stream e a tr2 sl' (Some q))) = events tr2 @ List.map_filter event_of ss"
        "DoLock \<notin> set ss" "DoUnlock \<notin> set ss"
      using get_stream_steps [of e a tr2 sl' "Some q"] by blast
    have "steps (snd (get_stream e a tr2 sl' (Some q))) =
        steps tr @ (OpenSession a # AppendSession q # ss)"
      using m(1) f by (simp add: tr2_def)
    moreover have "events (snd (get_stream e a tr2 sl' (Some q))) =
        events tr @ List.map_filter event_of (OpenSession a # AppendSession q # ss)"
      using m(2) f by (simp add: tr2_def List.map_filter_simps)
    moreover have "DoLock \<notin> set (OpenSession a # AppendSession q # ss)"
        "DoUnlock \<notin> set (OpenSession a # AppendSession q # ss)"
      using m(3,4) by simp_all
    ultimately show ?thesis unfolding c by blast
  qed
qed

lemma dial_body_steps:
  "\<exists>ss. steps (snd (dial_body e a tr)) = steps tr @ LookupSessions a # ScanSessions # ss
     \<and> events (snd (dial_body e a tr)) = events tr @ List.map_filter event_of ss
     \<and> DoLock \<notin> set ss \<and> DoUnlock \<notin> set ss"
proof -
  define trS where "trS = tr\<lparr>steps := steps tr @ [LookupSessions a, ScanSessions]\<rparr>"
  have S: "events trS = events tr" "steps trS = steps tr @ [LookupSessions a, ScanSessions]"
    by (simp_all add: trS_def)
  have nil: "steps trS = steps tr @ LookupSessions a # ScanSessions # []
     \<and> events trS = events tr @ List.map_filter event_of []
     \<and> DoLock \<notin> set [] \<and> DoUnlock \<notin> set []"
    using S by (simp add: List.map_filter_simps)
  have via: "\<exists>ss. steps (snd (create_and_get e a tr1 sl1 s ok1)) =
        steps tr @ LookupSessions a # ScanSessions # ss
     \<and> events (snd (create_and_get e a tr1 sl1 s ok1)) = events tr @ List.map_filter event_of ss
     \<and> DoLock \<notin> set ss \<and> DoUnlock \<notin> set ss"
    if h: "steps tr1 = steps trS @ s0" "List.map_filter event_of s0 = []"
       "DoLock \<notin> set s0" "DoUnlock \<notin> set s0" "events tr1 = events tr"
    for tr1 sl1 s ok1 s0
  proof -
    obtain ss where m: "steps (snd (create_and_get e a tr1 sl1 s ok1)) = steps tr1 @ ss"
        "events (snd (create_and_get e a tr1 sl1 s ok1)) =
           events tr1 @ List.map_filter event_of ss"
        "DoLock \<notin> set ss" "DoUnlock \<notin> set ss"
      using create_and_get_steps [of e a tr1 sl1 s ok1] by blast
    have "steps (snd (create_and_get e a tr1 sl1 s ok1)) =
        steps tr @ LookupSessions a # ScanSessions # (s0 @ ss)"
      using m(1) h(1) S by simp
    moreover have "events (snd (create_and_get e a tr1 sl1 s ok1)) =
        events tr @ List.map_filter event_of (s0 @ ss)"
      using m(2) h(2,5) by (simp add: map_filter_append)
    moreover have "DoLock \<notin> set (s0 @ ss)" "DoUnlock \<notin> set (s0 @ ss)"
      using m(3,4) h(3,4) by simp_all
    ultimately show ?thesis by blast
  qed
  show ?thesis
  proof (cases "sessions tr a")
    case None
    have "dial_body e a tr = create_and_get e a trS nil_slice None False"
      using dial_body_None [OF None] by (simp add: trS_def)
    then show ?thesis
      using via [of trS "[]" nil_slice None False] S by (simp add: List.map_filter_simps)
  next
    case (Some sl)
    show ?thesis
    proof (cases "scan (heap tr) (slice_elems (arrays tr) sl) 0 (None, 0, True)")
      case None
      then have "dial_body e a tr = (DialPanic, trS)"
        using Some by (simp add: dial_body_def trS_def)
      then show ?thesis using nil by auto
    next
      case sc: (Some v)
      obtain s i ok where v: "v = (s, i, ok)" by (cases v)
      show ?thesis
      proof (cases "evict e trS sl s i ok")
        case None
        then have "dial_body e a tr = (DialPanic, trS)"
          using Some sc v by (simp add: dial_body_def trS_def)
        then show ?thesis using nil by auto
      next
        case ev: (Some w)
        obtain tr1 sl1 ok1 where w: "w = (tr1, sl1, ok1)" by (cases w)
        note f = evict_frame [OF ev [unfolded w]]
        obtain s0 where s0: "steps tr1 = steps trS @ s0" "List.map_filter event_of s0 = []"
            "DoLock \<notin> set s0" "DoUnlock \<notin> set s0"
          using evict_steps [OF ev [unfolded w]] by blast
        have b: "dial_body e a tr = create_and_get e a tr1 sl1 s ok1"
          using dial_body_Some [OF Some sc [unfolded v] ev [unfolded w trS_def]] .
        show ?thesis
          unfolding b using via [OF s0] f S by simp
      qed
    qed
  qed
qed

lemma Dial_steps:
  "\<exists>ss. dial_steps e a tr = DoLock # LookupSessions a # ScanSessions # ss @ [DoUnlock]
     \<and> dial_trace e a tr = Lock # List.map_filter event_of ss @ [Unlock]
     \<and> DoLock \<notin> set ss \<and> DoUnlock \<notin> set ss"
proof -
  define trL where "trL = tr\<lparr>events := events tr @ [Lock], steps := steps tr @ [DoLock]\<rparr>"
  obtain ss where m: "steps (snd (dial_body e a trL)) =
        steps trL @ LookupSessions a # ScanSessions # ss"
      "events (snd (dial_body e a trL)) = events trL @ List.map_filter event_of ss"
      "DoLock \<notin> set ss" "DoUnlock \<notin> set ss"
    using dial_body_steps [of e a trL] by blast
  have "dial_steps e a tr = DoLock # LookupSessions a # ScanSessions # ss @ [DoUnlock]"
    using m(1) by (simp add: dial_steps_def Dial_via_body trL_def [symmetric]) (simp add: trL_def)
  moreover have "dial_trace e a tr = Lock # List.map_filter event_of ss @ [Unlock]"
    using m(2) by (simp add: dial_trace_def Dial_via_body trL_def [symmetric]) (simp add: trL_def)
  ultimately show ?thesis using m(3,4) by blast
qed

lemma steps_under_lock_mid:
  assumes "DoLock \<notin> set mid" and "DoUnlock \<notin> set mid"
  shows "steps_under_lock True (mid @ [DoUnlock])"
  using assms
proof (induction mid)
  case Nil
  then show ?case by simp
next
  case (Cons st mid)
  then show ?case by (cases st) simp_all
qed

lemma get_stream_writes:
  "\<exists>ss. steps (snd (get_stream e a tr sl s)) = steps tr @ ss
     \<and> arrays (snd (get_stream e a tr sl s)) = arrays tr
     \<and> (sessions (snd (get_stream e a tr sl s)) = sessions tr \<or> PersistSessions a \<in> set ss)"
  by (auto simp: get_stream_def GetConn_def split: option.splits sum.splits)

lemma evict_writes:
  assumes "evict e tr sl s i ok = Some (tr1, sl1, ok1)"
  shows "\<exists>ss. steps tr1 = steps tr @ ss
           \<and> (arrays tr1 = arrays tr \<or> EvictSession i \<in> set ss)"
  using assms
  by (auto simp: evict_def Let_def split_beta split: option.splits if_splits)

lemma create_and_get_writes:
  "\<exists>ss. steps (snd (create_and_get e a tr sl s ok)) = steps tr @ ss
     \<and> (sessions (snd (create_and_get e a tr sl s ok)) = sessions tr
          \<or> PersistSessions a \<in> set ss)
     \<and> (arrays (snd (create_and_get e a tr sl s ok)) = arrays tr
          \<or> (\<exists>q. AppendSession q \<in> set ss))"
proof (cases ok)
  case True
  then show ?thesis using get_stream_writes [of e a tr sl s]
    by (auto simp: create_and_get_def)
next
  case False
  obtain r tr' where i: "initSession e a tr = (r, tr')" by (cases "initSession e a tr")
  note f = initSession_frame [OF i] initSession_steps [OF i]
  show ?thesis
  proof (cases r)
    case (Inl err)
    then show ?thesis using False i f by (auto simp: create_and_get_def)
  next
    case (Inr q)
    obtain arrs sl' where ap: "append_slice (grow e) (arrays tr') sl [Some q] = (arrs, sl')"
      by (cases "append_slice (grow e) (arrays tr') sl [Some q]")
    define tr2 where "tr2 = tr'\<lparr>arrays := arrs, steps := steps tr' @ [AppendSession q]\<rparr>"
    have c: "create_and_get e a tr sl s ok = get_stream e a tr2 sl' (Some q)"
      using False i Inr ap by (simp add: create_and_get_def tr2_def)
    obtain ss where m: "steps (snd (get_stream e a tr2 sl' (Some q))) = steps tr2 @ ss"
        "sessions (snd (get_stream e a tr2 sl' (Some q))) = sessions tr2
           \<or> PersistSessions a \<in> set ss"
      using get_stream_writes [of e a tr2 sl' "Some q"] by blast
    have "steps (snd (get_stream e a tr2 sl' (Some q))) =
        steps tr @ (OpenSession a # AppendSession q # ss)"
      using m(1) f by (simp add: tr2_def)
    moreover have "sessions (snd (get_stream e a tr2 sl' (Some q))) = sessions tr
        \<or> PersistSessions a \<in> set (OpenSession a # AppendSession q # ss)"
      using m(2) f by (auto simp: tr2_def)
    moreover have "\<exists>q'. AppendSession q' \<in> set (OpenSession a # AppendSession q # ss)"
      by auto
    ultimately show ?thesis unfolding c by blast
  qed
qed

lemma dial_body_writes:
  "\<exists>ss. steps (snd (dial_body e a tr)) = steps tr @ ss
     \<and> (sessions (snd (dial_body e a tr)) = sessions tr \<or> PersistSessions a \<in> set ss)
     \<and> (arrays (snd (dial_body e a tr)) = arrays tr
          \<or> (\<exists>i. EvictSession i \<in> set ss) \<or> (\<exists>q. AppendSession q \<in> set ss))"
proof -
  define trS where "trS = tr\<lparr>steps := steps tr @ [LookupSessions a, ScanSessions]\<rparr>"
  have S: "sessions trS = sessions tr" "arrays trS = arrays tr"
      "steps trS = steps tr @ [LookupSessions a, ScanSessions]"
    by (simp_all add: trS_def)
  have via: "\<exists>ss. steps (snd (create_and_get e a tr1 sl1 s ok1)) = steps tr @ ss
     \<and> (sessions (snd (create_and_get e a tr1 sl1 s ok1)) = sessions tr
          \<or> PersistSessions a \<in> set ss)
     \<and> (arrays (snd (create_and_get e a tr1 sl1 s ok1)) = arrays tr
          \<or> (\<exists>i. EvictSession i \<in> set ss) \<or> (\<exists>q. AppendSession q \<in> set ss))"
    if h: "steps tr1 = steps trS @ s0" "sessions tr1 = sessions tr"
       "arrays tr1 = arrays tr \<or> EvictSession i \<in> set s0"
    for tr1 sl1 s ok1 s0 i
  proof -
    obtain ss where m: "steps (snd (create_and_get e a tr1 sl1 s ok1)) = steps tr1 @ ss"
        "sessions (snd (create_and_get e a tr1 sl1 s ok1)) = sessions tr1
           \<or> PersistSessions a \<in> set ss"
        "arrays (snd (create_and_get e a tr1 sl1 s ok1)) = arrays tr1
           \<or> (\<exists>q. AppendSession q \<in> set ss)"
      using create_and_get_writes [of e a tr1 sl1 s ok1] by blast
    define all where "all = LookupSessions a # ScanSessions # s0 @ ss"
    have "steps (snd (create_and_get e a tr1 sl1 s ok1)) = steps tr @ all"
      using m(1) h(1) S by (simp add: all_def)
    moreover have "sessions (snd (create_and_get e a tr1 sl1 s ok1)) = sessions tr
        \<or> PersistSessions a \<in> set all"
      using m(2) h(2) by (auto simp: all_def)
    moreover have "arrays (snd (create_and_get e a tr1 sl1 s ok1)) = arrays tr
        \<or> (\<exists>i. EvictSession i \<in> set all) \<or> (\<exists>q. AppendSession q \<in> set all)"
      using m(3) h(3) by (auto simp: all_def)
    ultimately show ?thesis by blast
  qed
  have stop: "\<exists>ss. steps trS = steps tr @ ss
     \<and> (sessions trS = sessions tr \<or> PersistSessions a \<in> set ss)
     \<and> (arrays trS = arrays tr
          \<or> (\<exists>i. EvictSession i \<in> set ss) \<or> (\<exists>q. AppendSession q \<in> set ss))"
    using S by blast
  show ?thesis
  proof (cases "sessions tr a")
    case None
    have "dial_body e a tr = create_and_get e a trS nil_slice None False"
      using dial_body_None [OF None] by (simp add: trS_def)
    then show ?thesis
      using via [of trS "[]" 0 nil_slice None False] S by simp
  next
    case (Some sl)
    show ?thesis
    proof (cases "scan (heap tr) (slice_elems (arrays tr) sl) 0 (None, 0, True)")
      case None
      then have "dial_body e a tr = (DialPanic, trS)"
        using Some by (simp add: dial_body_def trS_def)
      then show ?thesis using stop by simp
    next
      case sc: (Some v)
      obtain s i ok where v: "v = (s, i, ok)" by (cases v)
      show ?thesis
      proof (cases "evict e trS sl s i ok")
        case None
        then have "dial_body e a tr = (DialPanic, trS)"
          using Some sc v by (simp add: dial_body_def trS_def)
        then show ?thesis using stop by simp
      next
        case ev: (Some w)
        obtain tr1 sl1 ok1 where w: "w = (tr1, sl1, ok1)" by (cases w)
        note f = evict_frame [OF ev [unfolded w]]
        obtain s0 where s0: "steps tr1 = steps trS @ s0"
            "arrays tr1 = arrays trS \<or> EvictSession i \<in> set s0"
          using evict_writes [OF ev [unfolded w]] by blast
        have b: "dial_body e a tr = create_and_get e a tr1 sl1 s ok1"
          using dial_body_Some [OF Some sc [unfolded v] ev [unfolded w trS_def]] .
        show ?thesis
          unfolding b using via [of tr1 s0 i sl1 s ok1] s0 f S by simp
      qed
    qed
  qed
qed

lemma Dial_writes:
  "(sessions (snd (Dial e a tr)) = sessions tr \<or> PersistSessions a \<in> set (dial_steps e a tr))
   \<and> (arrays (snd (Dial e a tr)) = arrays tr
        \<or> (\<exists>i. EvictSession i \<in> set (dial_steps e a tr))
        \<or> (\<exists>q. AppendSession q \<in> set (dial_steps e a tr)))"
proof -
  define trL where "trL = tr\<lparr>events := events tr @ [Lock], steps := steps tr @ [DoLock]\<rparr>"
  obtain ss where m: "steps (snd (dial_body e a trL)) = steps trL @ ss"
      "sessions (snd (dial_body e a trL)) = sessions trL \<or> PersistSessions a \<in> set ss"
      "arrays (snd (dial_body e a trL)) = arrays trL
          \<or> (\<exists>i. EvictSession i \<in> set ss) \<or> (\<exists>q. AppendSession q \<in> set ss)"
    using dial_body_writes [of e a trL] by blast
  have st: "dial_steps e a tr = DoLock # ss @ [DoUnlock]"
    using m(1) by (simp add: dial_steps_def Dial_via_body trL_def [symmetric]) (simp add: trL_def)
  have se: "sessions (snd (Dial e a tr)) = sessions (snd (dial_body e a trL))"
      "arrays (snd (Dial e a tr)) = arrays (snd (dial_body e a trL))"
    by (simp_all add: Dial_via_body trL_def [symmetric])
  show ?thesis
    unfolding st se using m(2,3) by (auto simp: trL_def)
qed

subsection \<open>The mutex of the pool\<close>

lemma calls_under_lock_mid:
  assumes "Lock \<notin> set mid" and "Unlock \<notin> set mid"
  shows "calls_under_lock True (mid @ [Unlock])"
  using assms
proof (induction mid)
  case Nil
  then show ?case by simp
next
  case (Cons ev mid)
  then show ?case by (cases ev) simp_all
qed

text \<open>
  Claim C2 as stated fails: in the first call of \<^verbatim>\<open>Dial\<close> on a new transporter, with
  the network answering every call, the stream is requested between \<^verbatim>\<open>Lock\<close> and
  \<^verbatim>\<open>Unlock\<close>.
\<close>

theorem dial_requests_stream_under_lock:
  "dial_trace \<lparr>MaxMWSSStreamCnt = 2, grow = (\<lambda>c n. 2 * c), ws_dial = Inr 7,
       smux_client = None, open_stream = Inr 1\<rparr> ''D/tcp/'' NewMWSSTransporter =
     [Lock, WsDial ''D/tcp/'', OpenStream 0, Unlock]
   \<and> \<not> requests_outside_lock False
       (dial_trace \<lparr>MaxMWSSStreamCnt = 2, grow = (\<lambda>c n. 2 * c), ws_dial = Inr 7,
          smux_client = None, open_stream = Inr 1\<rparr> ''D/tcp/'' NewMWSSTransporter)"
proof -
  have t: "dial_trace \<lparr>MaxMWSSStreamCnt = 2, grow = (\<lambda>c n. 2 * c), ws_dial = Inr 7,
       smux_client = None, open_stream = Inr 1\<rparr> ''D/tcp/'' NewMWSSTransporter =
     [Lock, WsDial ''D/tcp/'', OpenStream 0, Unlock]"
    by (simp add: dial_trace_def Dial_def dial_body_def NewMWSSTransporter_def nil_slice_def
        slice_elems_def evict_def create_and_get_def initSession_def append_slice_def
        slice_cap_def get_stream_def deref_def GetConn_def Let_def)
  show ?thesis unfolding t by simp
qed

text \<open>
  Claim C2, amended. \<^verbatim>\<open>Dial\<close> locks the mutex first and unlocks it last (the unlock
  is deferred to the return), and never in between: every step of the call, that is the
  lookup in the map and the scan (which follow the lock at once), the eviction, the
  opening of a new session, the \<^verbatim>\<open>append\<close>, the request for a stream, the close of
  a session that refused it and the write to the map, happens while the mutex is held.
  The map changes only by the write step and the backing arrays only by an eviction or
  an \<^verbatim>\<open>append\<close> step, and the events shown to the mutex and to the network are
  these steps seen from outside.
\<close>

theorem dial_holds_lock_throughout:
  "(\<exists>ss. dial_steps e a tr = DoLock # LookupSessions a # ScanSessions # ss @ [DoUnlock]
        \<and> DoLock \<notin> set ss \<and> DoUnlock \<notin> set ss)
   \<and> steps_under_lock False (dial_steps e a tr)
   \<and> (sessions (snd (Dial e a tr)) = sessions tr \<or> PersistSessions a \<in> set (dial_steps e a tr))
   \<and> (arrays (snd (Dial e a tr)) = arrays tr
        \<or> (\<exists>i. EvictSession i \<in> set (dial_steps e a tr))
        \<or> (\<exists>q. AppendSession q \<in> set (dial_steps e a tr)))
   \<and> List.map_filter event_of (dial_steps e a tr) = dial_trace e a tr
   \<and> (\<exists>mid. dial_trace e a tr = Lock # mid @ [Unlock] \<and> Lock \<notin> set mid \<and> Unlock \<notin> set mid)
   \<and> calls_under_lock False (dial_trace e a tr)"
proof -
  obtain ss where s: "dial_steps e a tr = DoLock # LookupSessions a # ScanSessions # ss @ [DoUnlock]"
      "dial_trace e a tr = Lock # List.map_filter event_of ss @ [Unlock]"
      "DoLock \<notin> set ss" "DoUnlock \<notin> set ss"
    using Dial_steps [of e a tr] by blast
  define mid where "mid = LookupSessions a # ScanSessions # ss"
  have mid: "dial_steps e a tr = DoLock # mid @ [DoUnlock]" "DoLock \<notin> set mid"
      "DoUnlock \<notin> set mid"
    using s by (simp_all add: mid_def)
  have A: "\<exists>ss. dial_steps e a tr = DoLock # LookupSessions a # ScanSessions # ss @ [DoUnlock]
        \<and> DoLock \<notin> set ss \<and> DoUnlock \<notin> set ss"
    using s by blast
  have B: "steps_under_lock False (dial_steps e a tr)"
    using steps_under_lock_mid [OF mid(2,3)] mid(1) by simp
  have C: "List.map_filter event_of (dial_steps e a tr) = dial_trace e a tr"
    using s(1,2) by (simp add: map_filter_append List.map_filter_simps)
  obtain m' where m': "dial_trace e a tr = Lock # m' @ [Unlock]" "Lock \<notin> set m'"
      "Unlock \<notin> set m'"
    using Dial_trace [of e a tr] by blast
  have D: "\<exists>mid. dial_trace e a tr = Lock # mid @ [Unlock] \<and> Lock \<notin> set mid \<and> Unlock \<notin> set mid"
    using m' by blast
  have E: "calls_under_lock False (dial_trace e a tr)"
    using calls_under_lock_mid [OF m'(2,3)] m'(1) by simp
  note W = Dial_writes [of e a tr]
  show ?thesis using A B C D E W by blast
qed

theorem dial_holds_lock_throughout_witness:
  "dial_steps (network (Inr 12) (Inr 5)) ''D/tcp/''
       (pool_of [session_with 10 2 True, session_with 11 1 True] [Some 0, Some 1]) =
     [DoLock, LookupSessions ''D/tcp/'', ScanSessions, EvictSession 1, OpenSession ''D/tcp/'',
      AppendSession 2, RequestStream 2, PersistSessions ''D/tcp/'', DoUnlock]
   \<and> steps_under_lock False (dial_steps (network (Inr 12) (Inr 5)) ''D/tcp/''
       (pool_of [session_with 10 2 True, session_with 11 1 True] [Some 0, Some 1]))
   \<and> calls_under_lock False (dial_trace (network (Inr 12) (Inr 5)) ''D/tcp/''
       (pool_of [session_with 10 2 True, session_with 11 1 True] [Some 0, Some 1]))"
proof -
  have t: "dial_steps (network (Inr 12) (Inr 5)) ''D/tcp/''
       (pool_of [session_with 10 2 True, session_with 11 1 True] [Some 0, Some 1]) =
     [DoLock, LookupSessions ''D/tcp/'', ScanSessions, EvictSession 1, OpenSession ''D/tcp/'',
      AppendSession 2, RequestStream 2, PersistSessions ''D/tcp/'', DoUnlock]"
    by (simp add: dial_steps_def pool_of_def session_with_def network_def
        deref_def IsClosed_def NumStreams_def GetConn_def slice_elems_def slice_cap_def
        Dial_def dial_body_def evict_def append_slice_def create_and_get_def initSession_def
        get_stream_def Let_def)
  show ?thesis
    using dial_holds_lock_throughout [of "network (Inr 12) (Inr 5)" "''D/tcp/''"
        "pool_of [session_with 10 2 True, session_with 11 1 True] [Some 0, Some 1]"] t
    by blast
qed

subsection \<open>Which session \<^verbatim>\<open>Dial\<close> uses\<close>

text \<open>
  Claim C3. For a destination whose recorded sequence \<open>ps\<close> is not empty, the scan of
  \<^verbatim>\<open>Dial\<close> visits \<open>ps\<close> in order and stops at the first session whose stream
  count is below its maximum (position \<open>k\<close>, every earlier session being at capacity);
  when that session is open, the stream is requested from it, no session is opened and
  the recorded sequence stays as it is. If no session fits, the scan ends on the last
  session with \<^verbatim>\<open>ok = false\<close>, a new session is opened, and on success it is recorded
  at the end of the sequence (from which the last session, if closed, has been evicted).
  So three calls with a maximum of two streams, on a new transporter and with the
  network answering every call, whatever the growth of \<^verbatim>\<open>append\<close>: the first opens
  session 0 and takes a stream of it, the second takes a stream of session 0, the third
  opens session 1 and takes a stream of it; two sessions exist and are recorded.
\<close>

theorem dial_first_fit:
  fixes g :: "nat \<Rightarrow> nat \<Rightarrow> nat" and rc1 rc2 rc3 n1 n2 n3 :: nat
  assumes "sessions tr a = Some sl" and "wf_slice (arrays tr) sl"
    and "slice_elems (arrays tr) sl = ps" and "ps \<noteq> []"
  shows "(k < length ps \<and> below_max (heap tr) (ps ! k) \<and> (\<forall>j<k. at_capacity (heap tr) (ps ! j)) \<longrightarrow>
            scan (heap tr) ps 0 (None, 0, True) = Some (ps ! k, k, True)
            \<and> (ps ! k = Some q \<and> \<not> is_closed_at (heap tr) (ps ! k) \<and> open_stream e = Inr n \<longrightarrow>
                 fst (Dial e a tr) = DialOk (MuxDeadlineStreamConn (physical (heap tr ! q)) n)
                 \<and> dial_trace e a tr = [Lock, OpenStream q, Unlock]
                 \<and> recorded (snd (Dial e a tr)) a = Some ps
                 \<and> length (heap (snd (Dial e a tr))) = length (heap tr)))
       \<and> ((\<forall>p\<in>set ps. at_capacity (heap tr) p) \<longrightarrow>
            scan (heap tr) ps 0 (None, 0, True) = Some (last ps, length ps - 1, False)
            \<and> (ws_dial e = Inr rc \<and> smux_client e = None \<and> open_stream e = Inr n \<longrightarrow>
                 fst (Dial e a tr) = DialOk (MuxDeadlineStreamConn (DeadLinerConn (RawConn rc)) n)
                 \<and> dial_trace e a tr = [Lock, WsDial a, OpenStream (length (heap tr)), Unlock]
                 \<and> recorded (snd (Dial e a tr)) a =
                     Some ((if is_closed_at (heap tr) (last ps) then butlast ps else ps)
                            @ [Some (length (heap tr))])
                 \<and> length (heap (snd (Dial e a tr))) = Suc (length (heap tr))))
       \<and> fst (dials
            [\<lparr>MaxMWSSStreamCnt = 2, grow = g, ws_dial = Inr rc1, smux_client = None,
               open_stream = Inr n1\<rparr>,
             \<lparr>MaxMWSSStreamCnt = 2, grow = g, ws_dial = Inr rc2, smux_client = None,
               open_stream = Inr n2\<rparr>,
             \<lparr>MaxMWSSStreamCnt = 2, grow = g, ws_dial = Inr rc3, smux_client = None,
               open_stream = Inr n3\<rparr>] a' NewMWSSTransporter) =
           [DialOk (MuxDeadlineStreamConn (DeadLinerConn (RawConn rc1)) n1),
            DialOk (MuxDeadlineStreamConn (DeadLinerConn (RawConn rc1)) n2),
            DialOk (MuxDeadlineStreamConn (DeadLinerConn (RawConn rc3)) n3)]
       \<and> length (heap (snd (dials
            [\<lparr>MaxMWSSStreamCnt = 2, grow = g, ws_dial = Inr rc1, smux_client = None,
               open_stream = Inr n1\<rparr>,
             \<lparr>MaxMWSSStreamCnt = 2, grow = g, ws_dial = Inr rc2, smux_client = None,
               open_stream = Inr n2\<rparr>,
             \<lparr>MaxMWSSStreamCnt = 2, grow = g, ws_dial = Inr rc3, smux_client = None,
               open_stream = Inr n3\<rparr>] a' NewMWSSTransporter))) = 2
       \<and> recorded (snd (dials
            [\<lparr>MaxMWSSStreamCnt = 2, grow = g, ws_dial = Inr rc1, smux_client = None,
               open_stream = Inr n1\<rparr>,
             \<lparr>MaxMWSSStreamCnt = 2, grow = g, ws_dial = Inr rc2, smux_client = None,
               open_stream = Inr n2\<rparr>,
             \<lparr>MaxMWSSStreamCnt = 2, grow = g, ws_dial = Inr rc3, smux_client = None,
               open_stream = Inr n3\<rparr>] a' NewMWSSTransporter)) a' = Some [Some 0, Some 1]
       \<and> events (snd (dials
            [\<lparr>MaxMWSSStreamCnt = 2, grow = g, ws_dial = Inr rc1, smux_client = None,
               open_stream = Inr n1\<rparr>,
             \<lparr>MaxMWSSStreamCnt = 2, grow = g, ws_dial = Inr rc2, smux_client = None,
               open_stream = Inr n2\<rparr>,
             \<lparr>MaxMWSSStreamCnt = 2, grow = g, ws_dial = Inr rc3, smux_client = None,
               open_stream = Inr n3\<rparr>] a' NewMWSSTransporter)) =
           [Lock, WsDial a', OpenStream 0, Unlock, Lock, OpenStream 0, Unlock,
            Lock, WsDial a', OpenStream 1, Unlock]"
proof -
  have A: "scan (heap tr) ps 0 (None, 0, True) = Some (ps ! k, k, True)
            \<and> (ps ! k = Some q \<and> \<not> is_closed_at (heap tr) (ps ! k) \<and> open_stream e = Inr n \<longrightarrow>
                 fst (Dial e a tr) = DialOk (MuxDeadlineStreamConn (physical (heap tr ! q)) n)
                 \<and> dial_trace e a tr = [Lock, OpenStream q, Unlock]
                 \<and> recorded (snd (Dial e a tr)) a = Some ps
                 \<and> length (heap (snd (Dial e a tr))) = length (heap tr))"
    if k: "k < length ps" "below_max (heap tr) (ps ! k)" "\<forall>j<k. at_capacity (heap tr) (ps ! j)"
  proof -
    have sc: "scan (heap tr) ps 0 (None, 0, True) = Some (ps ! k, k, True)"
      using scan_fit [OF k, of 0 "(None, 0, True)"] by simp
    have "fst (Dial e a tr) = DialOk (MuxDeadlineStreamConn (physical (heap tr ! q)) n)
                 \<and> dial_trace e a tr = [Lock, OpenStream q, Unlock]
                 \<and> recorded (snd (Dial e a tr)) a = Some ps
                 \<and> length (heap (snd (Dial e a tr))) = length (heap tr)"
      if h: "ps ! k = Some q" "\<not> is_closed_at (heap tr) (ps ! k)" "open_stream e = Inr n"
      using Dial_reuse(1) [OF assms(1,3) k(1) h(1) k(2,3) h(2), of e n] h(3) assms(3)
      by (simp add: dial_trace_def recorded_def)
    then show ?thesis using sc by blast
  qed
  have B: "scan (heap tr) ps 0 (None, 0, True) = Some (last ps, length ps - 1, False)
            \<and> (ws_dial e = Inr rc \<and> smux_client e = None \<and> open_stream e = Inr n \<longrightarrow>
                 fst (Dial e a tr) = DialOk (MuxDeadlineStreamConn (DeadLinerConn (RawConn rc)) n)
                 \<and> dial_trace e a tr = [Lock, WsDial a, OpenStream (length (heap tr)), Unlock]
                 \<and> recorded (snd (Dial e a tr)) a =
                     Some ((if is_closed_at (heap tr) (last ps) then butlast ps else ps)
                            @ [Some (length (heap tr))])
                 \<and> length (heap (snd (Dial e a tr))) = Suc (length (heap tr)))"
    if full: "\<forall>p\<in>set ps. at_capacity (heap tr) p"
  proof -
    have sc: "scan (heap tr) ps 0 (None, 0, True) = Some (last ps, length ps - 1, False)"
      using scan_none [OF assms(4) full, of 0 "(None, 0, True)"] by simp
    have bl: "take (length ps - 1) ps @ drop (Suc (length ps - 1)) ps = butlast ps"
      using assms(4) by (simp add: butlast_conv_take)
    have "fst (Dial e a tr) = DialOk (MuxDeadlineStreamConn (DeadLinerConn (RawConn rc)) n)
                 \<and> dial_trace e a tr = [Lock, WsDial a, OpenStream (length (heap tr)), Unlock]
                 \<and> recorded (snd (Dial e a tr)) a =
                     Some ((if is_closed_at (heap tr) (last ps) then butlast ps else ps)
                            @ [Some (length (heap tr))])
                 \<and> length (heap (snd (Dial e a tr))) = Suc (length (heap tr))"
      if net: "ws_dial e = Inr rc" "smux_client e = None" "open_stream e = Inr n"
    proof -
      obtain tr' sl' where d: "Dial e a tr =
             (DialOk (MuxDeadlineStreamConn (DeadLinerConn (RawConn rc)) n), tr')"
         "heap tr' = heap tr @ [\<lparr>physical = DeadLinerConn (RawConn rc),
               maxStreamCnt = MaxMWSSStreamCnt e, streams = 1, closed = False\<rparr>]"
         "sessions tr' = (sessions tr)(a \<mapsto> sl')"
         "slice_elems (arrays tr') sl' =
             (if is_closed_at (heap tr) (last ps)
              then take (length ps - 1) ps @ drop (Suc (length ps - 1)) ps else ps)
               @ [Some (length (heap tr))]"
         "events tr' = events tr @ [Lock, WsDial a, OpenStream (length (heap tr)), Unlock]"
        using Dial_create [OF assms(1,2,3) sc _ net] by auto
      show ?thesis
        using d bl by (simp add: dial_trace_def recorded_def)
    qed
    then show ?thesis using sc by blast
  qed
  note C = three_dials [of g rc1 n1 rc2 n2 rc3 n3 a']
  have A': "k < length ps \<and> below_max (heap tr) (ps ! k) \<and> (\<forall>j<k. at_capacity (heap tr) (ps ! j)) \<longrightarrow>
            scan (heap tr) ps 0 (None, 0, True) = Some (ps ! k, k, True)
            \<and> (ps ! k = Some q \<and> \<not> is_closed_at (heap tr) (ps ! k) \<and> open_stream e = Inr n \<longrightarrow>
                 fst (Dial e a tr) = DialOk (MuxDeadlineStreamConn (physical (heap tr ! q)) n)
                 \<and> dial_trace e a tr = [Lock, OpenStream q, Unlock]
                 \<and> recorded (snd (Dial e a tr)) a = Some ps
                 \<and> length (heap (snd (Dial e a tr))) = length (heap tr))"
    using A by blast
  have B': "(\<forall>p\<in>set ps. at_capacity (heap tr) p) \<longrightarrow>
            scan (heap tr) ps 0 (None, 0, True) = Some (last ps, length ps - 1, False)
            \<and> (ws_dial e = Inr rc \<and> smux_client e = None \<and> open_stream e = Inr n \<longrightarrow>
                 fst (Dial e a tr) = DialOk (MuxDeadlineStreamConn (DeadLinerConn (RawConn rc)) n)
                 \<and> dial_trace e a tr = [Lock, WsDial a, OpenStream (length (heap tr)), Unlock]
                 \<and> recorded (snd (Dial e a tr)) a =
                     Some ((if is_closed_at (heap tr) (last ps) then butlast ps else ps)
                            @ [Some (length (heap tr))])
                 \<and> length (heap (snd (Dial e a tr))) = Suc (length (heap tr)))"
    using B by blast
  have C': "length (heap (snd (dials
            [\<lparr>MaxMWSSStreamCnt = 2, grow = g, ws_dial = Inr rc1, smux_client = None,
               open_stream = Inr n1\<rparr>,
             \<lparr>MaxMWSSStreamCnt = 2, grow = g, ws_dial = Inr rc2, smux_client = None,
               open_stream = Inr n2\<rparr>,
             \<lparr>MaxMWSSStreamCnt = 2, grow = g, ws_dial = Inr rc3, smux_client = None,
               open_stream = Inr n3\<rparr>] a' NewMWSSTransporter))) = 2"
    using C by (simp del: dials.simps)
  show ?thesis
    using A' B' C C' by blast
qed

theorem dial_first_fit_witness:
  "scan (heap (pool_of [session_with 10 2 False, session_with 11 1 False] [Some 0, Some 1]))
       [Some 0, Some 1] 0 (None, 0, True) = Some (Some 1, 1, True)
   \<and> fst (Dial (network (Inr 12) (Inr 5)) ''D/tcp/''
         (pool_of [session_with 10 2 False, session_with 11 1 False] [Some 0, Some 1])) =
       DialOk (MuxDeadlineStreamConn (DeadLinerConn (RawConn 11)) 5)
   \<and> dial_trace (network (Inr 12) (Inr 5)) ''D/tcp/''
         (pool_of [session_with 10 2 False, session_with 11 1 False] [Some 0, Some 1]) =
       [Lock, OpenStream 1, Unlock]
   \<and> recorded (snd (Dial (network (Inr 12) (Inr 5)) ''D/tcp/''
         (pool_of [session_with 10 2 False, session_with 11 1 False] [Some 0, Some 1])))
       ''D/tcp/'' = Some [Some 0, Some 1]
   \<and> scan (heap (pool_of [session_with 10 2 False, session_with 11 2 False] [Some 0, Some 1]))
       [Some 0, Some 1] 0 (None, 0, True) = Some (Some 1, 1, False)
   \<and> fst (Dial (network (Inr 12) (Inr 5)) ''D/tcp/''
         (pool_of [session_with 10 2 False, session_with 11 2 False] [Some 0, Some 1])) =
       DialOk (MuxDeadlineStreamConn (DeadLinerConn (RawConn 12)) 5)
   \<and> dial_trace (network (Inr 12) (Inr 5)) ''D/tcp/''
         (pool_of [session_with 10 2 False, session_with 11 2 False] [Some 0, Some 1]) =
       [Lock, WsDial ''D/tcp/'', OpenStream 2, Unlock]
   \<and> recorded (snd (Dial (network (Inr 12) (Inr 5)) ''D/tcp/''
         (pool_of [session_with 10 2 False, session_with 11 2 False] [Some 0, Some 1])))
       ''D/tcp/'' = Some [Some 0, Some 1, Some 2]"
proof -
  define trA where "trA = pool_of [session_with 10 2 False, session_with 11 1 False] [Some 0, Some 1]"
  define trB where "trB = pool_of [session_with 10 2 False, session_with 11 2 False] [Some 0, Some 1]"
  define sl where "sl = \<lparr>slice_ptr = Some 0, slice_len = 2\<rparr>"
  define e where "e = network (Inr 12) (Inr 5)"
  have pA: "sessions trA ''D/tcp/'' = Some sl" "wf_slice (arrays trA) sl"
      "slice_elems (arrays trA) sl = [Some 0, Some 1]"
    by (simp_all add: trA_def sl_def pool_of_def wf_slice_def slice_elems_def)
  have pB: "sessions trB ''D/tcp/'' = Some sl" "wf_slice (arrays trB) sl"
      "slice_elems (arrays trB) sl = [Some 0, Some 1]"
    by (simp_all add: trB_def sl_def pool_of_def wf_slice_def slice_elems_def)
  have ne: "[Some 0, Some (1::nat)] \<noteq> []" by simp
  have hA: "1 < length [Some 0, Some (1::nat)]
      \<and> below_max (heap trA) ([Some 0, Some 1] ! 1)
      \<and> (\<forall>j<1. at_capacity (heap trA) ([Some 0, Some 1] ! j))"
    by (simp add: trA_def pool_of_def session_with_def below_max_def at_capacity_def deref_def
        NumStreams_def)
  have hA': "[Some 0, Some 1] ! 1 = Some (1::nat)
      \<and> \<not> is_closed_at (heap trA) ([Some 0, Some 1] ! 1) \<and> open_stream e = Inr 5"
    by (simp add: trA_def pool_of_def session_with_def is_closed_at_def deref_def IsClosed_def
        e_def network_def)
  have hB: "\<forall>p\<in>set [Some 0, Some 1]. at_capacity (heap trB) p"
    by (simp add: trB_def pool_of_def session_with_def at_capacity_def deref_def NumStreams_def)
  have hB': "ws_dial e = Inr 12 \<and> smux_client e = None \<and> open_stream e = Inr 5"
    by (simp add: e_def network_def)
  have lastB: "\<not> is_closed_at (heap trB) (last [Some 0, Some 1])"
    by (simp add: trB_def pool_of_def session_with_def is_closed_at_def deref_def IsClosed_def)
  have physA: "physical (heap trA ! 1) = DeadLinerConn (RawConn 11)" "length (heap trB) = 2"
    by (simp_all add: trA_def trB_def pool_of_def session_with_def)
  note TA = dial_first_fit [OF pA ne, where k = 1 and q = 1 and e = e and n = 5]
  note TB = dial_first_fit [OF pB ne, where e = e and n = 5 and rc = 12]
  note A1 = TA [THEN conjunct1, THEN mp, OF hA]
  note A2 = A1 [THEN conjunct2, THEN mp, OF hA']
  note B1 = TB [THEN conjunct2, THEN conjunct1, THEN mp, OF hB]
  note B2 = B1 [THEN conjunct2, THEN mp, OF hB']
  have "scan (heap trA) [Some 0, Some 1] 0 (None, 0, True) = Some (Some 1, 1, True)
      \<and> fst (Dial e ''D/tcp/'' trA) = DialOk (MuxDeadlineStreamConn (DeadLinerConn (RawConn 11)) 5)
      \<and> dial_trace e ''D/tcp/'' trA = [Lock, OpenStream 1, Unlock]
      \<and> recorded (snd (Dial e ''D/tcp/'' trA)) ''D/tcp/'' = Some [Some 0, Some 1]"
    using A1 [THEN conjunct1] A2 physA by (simp del: scan.simps)
  moreover have "scan (heap trB) [Some 0, Some 1] 0 (None, 0, True) = Some (Some 1, 1, False)
      \<and> fst (Dial e ''D/tcp/'' trB) = DialOk (MuxDeadlineStreamConn (DeadLinerConn (RawConn 12)) 5)
      \<and> dial_trace e ''D/tcp/'' trB = [Lock, WsDial ''D/tcp/'', OpenStream 2, Unlock]
      \<and> recorded (snd (Dial e ''D/tcp/'' trB)) ''D/tcp/'' = Some [Some 0, Some 1, Some 2]"
    using B1 [THEN conjunct1] B2 lastB physA by (simp del: scan.simps)
  ultimately show ?thesis
    unfolding trA_def trB_def e_def by blast
qed

subsection \<open>Lazy eviction\<close>

text \<open>
  Claim C4 as stated fails in its second half. The pool records one session, which is
  closed. A first call of \<^verbatim>\<open>Dial\<close> ends its scan on that session and finds it closed,
  but the WebSocket dial for the replacement fails, so the call returns the error
  before line 64 and the recorded sequence still holds the session. The scan of the
  next call selects it again (\<^verbatim>\<open>ok = true\<close>).
\<close>

theorem closed_session_selected_again:
  "scan_end (pool_of [session_with 10 1 True] [Some 0]) ''D/tcp/'' = Some 0
   \<and> is_closed_at (heap (pool_of [session_with 10 1 True] [Some 0])) (Some 0)
   \<and> fst (Dial (network (Inl (OtherError ''unreachable'')) (Inr 1)) ''D/tcp/''
        (pool_of [session_with 10 1 True] [Some 0])) = DialErr (OtherError ''unreachable'')
   \<and> recorded (snd (Dial (network (Inl (OtherError ''unreachable'')) (Inr 1)) ''D/tcp/''
        (pool_of [session_with 10 1 True] [Some 0]))) ''D/tcp/'' = Some [Some 0]
   \<and> scan (heap (snd (Dial (network (Inl (OtherError ''unreachable'')) (Inr 1)) ''D/tcp/''
        (pool_of [session_with 10 1 True] [Some 0])))) [Some 0] 0 (None, 0, True) =
       Some (Some 0, 0, True)"
  by (simp add: scan_end_def pool_of_def session_with_def network_def is_closed_at_def
      deref_def IsClosed_def NumStreams_def slice_elems_def slice_cap_def recorded_def
      Dial_def dial_body_def evict_def append_slice_def create_and_get_def initSession_def
      Let_def)

text \<open>
  Claim C4, amended. When the scan ends on a closed session (at position \<open>k\<close>) and the
  call succeeds, the sequence recorded afterwards is the old one without position \<open>k\<close>
  and with the new session at its end: only the session at the scan's terminal position
  is evicted, every other session, closed or not, stays. And a session that is closed
  is never the session a later call of \<^verbatim>\<open>Dial\<close> requests a stream from, and it stays
  closed, over any sequence of calls.
\<close>

theorem dial_lazy_eviction:
  assumes "sessions tr a = Some sl" and "wf_slice (arrays tr) sl"
    and "slice_elems (arrays tr) sl = ps"
    and "scan (heap tr) ps 0 (None, 0, True) = Some (s, k, ok)"
    and "is_closed_at (heap tr) s"
    and "ws_dial e = Inr rc" and "smux_client e = None" and "open_stream e = Inr n"
    and "q < length (heap tr2)" and "closed (heap tr2 ! q)"
  shows "k < length ps \<and> ps ! k = s
       \<and> fst (Dial e a tr) = DialOk (MuxDeadlineStreamConn (DeadLinerConn (RawConn rc)) n)
       \<and> dial_trace e a tr = [Lock, WsDial a, OpenStream (length (heap tr)), Unlock]
       \<and> recorded (snd (Dial e a tr)) a =
           Some (take k ps @ drop (Suc k) ps @ [Some (length (heap tr))])
       \<and> OpenStream q \<notin> set (drop (length (events tr2)) (events (snd (dials es a2 tr2))))
       \<and> closed (heap (snd (dials es a2 tr2)) ! q)"
proof -
  have "s \<noteq> None" using assms(5) by (cases s) (simp_all add: is_closed_at_def deref_def)
  then have k: "k < length ps \<and> ps ! k = s"
    using scan_index [OF assms(4)] by auto
  obtain tr' sl' where d: "Dial e a tr =
             (DialOk (MuxDeadlineStreamConn (DeadLinerConn (RawConn rc)) n), tr')"
         "sessions tr' = (sessions tr)(a \<mapsto> sl')"
         "slice_elems (arrays tr') sl' =
             (if is_closed_at (heap tr) s then take k ps @ drop (Suc k) ps else ps)
               @ [Some (length (heap tr))]"
         "events tr' = events tr @ [Lock, WsDial a, OpenStream (length (heap tr)), Unlock]"
    using Dial_create [OF assms(1,2,3,4) _ assms(6,7,8)] assms(5) by auto
  have D: "fst (Dial e a tr) = DialOk (MuxDeadlineStreamConn (DeadLinerConn (RawConn rc)) n)
       \<and> dial_trace e a tr = [Lock, WsDial a, OpenStream (length (heap tr)), Unlock]
       \<and> recorded (snd (Dial e a tr)) a =
           Some (take k ps @ drop (Suc k) ps @ [Some (length (heap tr))])"
    using d assms(5) by (simp add: dial_trace_def recorded_def)
  obtain mid where "events (snd (dials es a2 tr2)) = events tr2 @ mid" "OpenStream q \<notin> set mid"
      "closed (heap (snd (dials es a2 tr2)) ! q)"
    using dials_closed [OF assms(9,10), of es a2] by blast
  then have "OpenStream q \<notin> set (drop (length (events tr2)) (events (snd (dials es a2 tr2))))
       \<and> closed (heap (snd (dials es a2 tr2)) ! q)"
    by simp
  then show ?thesis using k D by blast
qed

theorem dial_lazy_eviction_witness:
  "dial_trace (network (Inr 12) (Inr 5)) ''D/tcp/''
       (pool_of [session_with 10 2 True, session_with 11 1 True] [Some 0, Some 1]) =
     [Lock, WsDial ''D/tcp/'', OpenStream 2, Unlock]
   \<and> recorded (snd (Dial (network (Inr 12) (Inr 5)) ''D/tcp/''
         (pool_of [session_with 10 2 True, session_with 11 1 True] [Some 0, Some 1])))
       ''D/tcp/'' = Some [Some 0, Some 2]
   \<and> OpenStream 1 \<notin> set (drop
         (length (events (pool_of [session_with 10 2 True, session_with 11 1 True] [Some 0, Some 1])))
         (events (snd (dials [network (Inr 12) (Inr 5), network (Inr 13) (Inr 6)] ''D/tcp/''
            (pool_of [session_with 10 2 True, session_with 11 1 True] [Some 0, Some 1])))))"
proof -
  define tr where "tr = pool_of [session_with 10 2 True, session_with 11 1 True] [Some 0, Some 1]"
  define sl where "sl = \<lparr>slice_ptr = Some 0, slice_len = 2\<rparr>"
  define e where "e = network (Inr 12) (Inr 5)"
  have p: "sessions tr ''D/tcp/'' = Some sl" "wf_slice (arrays tr) sl"
      "slice_elems (arrays tr) sl = [Some 0, Some 1]"
    by (simp_all add: tr_def sl_def pool_of_def wf_slice_def slice_elems_def)
  have sc: "scan (heap tr) [Some 0, Some 1] 0 (None, 0, True) = Some (Some 1, 1, True)"
    by (simp add: tr_def pool_of_def session_with_def deref_def NumStreams_def)
  have cl: "is_closed_at (heap tr) (Some 1)"
    by (simp add: tr_def pool_of_def session_with_def is_closed_at_def deref_def IsClosed_def)
  have net: "ws_dial e = Inr 12" "smux_client e = None" "open_stream e = Inr 5"
    by (simp_all add: e_def network_def)
  have q: "1 < length (heap tr)" "closed (heap tr ! 1)" "length (heap tr) = 2"
    by (simp_all add: tr_def pool_of_def session_with_def)
  note T = dial_lazy_eviction [OF p sc cl net q(1,2),
      where es = "[network (Inr 12) (Inr 5), network (Inr 13) (Inr 6)]" and ?a2.0 = "''D/tcp/''"]
  show ?thesis
    using T q(3) unfolding tr_def [symmetric] e_def [symmetric]
    by (simp del: dials.simps)
qed

subsection \<open>A failed request for a stream\<close>




subsection \<open>Errors of \<^verbatim>\<open>Dial\<close> and the recorded sequence\<close>

text \<open>
  Claim C8, evaluated on the code. The claim says that a call of \<^verbatim>\<open>Dial\<close> that returns
  an error leaves the sequence recorded for the address as it was. \<^verbatim>\<open>Dial\<close> does not
  write the map on an error, but the eviction of line 47 and the \<^verbatim>\<open>append\<close> of line
  57 write into the backing array that the recorded slice shares. First input: the pool
  records one session, closed; the replacement is opened and refuses the stream; the
  call returns the error, and the pool now records the replacement (session 1,
  closed) in place of session 0. Second input: the pool records a closed session and a
  full one; the WebSocket dial fails; the call returns the error, and the pool now
  records the full session twice.
\<close>

theorem dial_error_changes_recorded:
  "recorded (pool_of [session_with 10 1 True] [Some 0]) ''D/tcp/'' = Some [Some 0]
   \<and> fst (Dial (network (Inr 12) (Inl (OtherError ''refused''))) ''D/tcp/''
        (pool_of [session_with 10 1 True] [Some 0])) = DialErr (OtherError ''refused'')
   \<and> heap (snd (Dial (network (Inr 12) (Inl (OtherError ''refused''))) ''D/tcp/''
        (pool_of [session_with 10 1 True] [Some 0]))) =
       [session_with 10 1 True, session_with 12 0 True]
   \<and> recorded (snd (Dial (network (Inr 12) (Inl (OtherError ''refused''))) ''D/tcp/''
        (pool_of [session_with 10 1 True] [Some 0]))) ''D/tcp/'' = Some [Some 1]
   \<and> recorded (pool_of [session_with 10 1 True, session_with 11 2 False] [Some 0, Some 1])
        ''D/tcp/'' = Some [Some 0, Some 1]
   \<and> fst (Dial (network (Inl (OtherError ''unreachable'')) (Inr 1)) ''D/tcp/''
        (pool_of [session_with 10 1 True, session_with 11 2 False] [Some 0, Some 1])) =
       DialErr (OtherError ''unreachable'')
   \<and> recorded (snd (Dial (network (Inl (OtherError ''unreachable'')) (Inr 1)) ''D/tcp/''
        (pool_of [session_with 10 1 True, session_with 11 2 False] [Some 0, Some 1])))
        ''D/tcp/'' = Some [Some 1, Some 1]"
  by (simp add: pool_of_def session_with_def network_def is_closed_at_def
      deref_def IsClosed_def NumStreams_def Close_def GetConn_def slice_elems_def slice_cap_def
      recorded_def Dial_def dial_body_def evict_def append_slice_def create_and_get_def
      initSession_def get_stream_def Let_def)

subsection \<open>The handlers close what they were given\<close>

text \<open>
  Claim C9. Whatever \<^verbatim>\<open>Dial\<close> does (stream, error or panic), the last thing
  \<^verbatim>\<open>handleTcpOverMWSS\<close> does is to close the deadline wrapper around the plaintext
  connection it was given; when \<^verbatim>\<open>Dial\<close> fails, that is all it does before returning
  the error. Whatever \<^verbatim>\<open>net.Dial\<close> answers, the last thing \<^verbatim>\<open>handleMWSSConnToTcp\<close>
  does is to close the connection it was given; when the dial of the destination fails,
  that is all it does.
\<close>

theorem handlers_close_their_connection:
  "fst (snd (handleTcpOverMWSS r e c tr)) \<noteq> []
   \<and> last (fst (snd (handleTcpOverMWSS r e c tr))) = Closed (DeadLinerConn c)
   \<and> (fst (Dial e (RemoteTCPAddr r @ ''/tcp/'') tr) = DialErr err \<longrightarrow>
        handleTcpOverMWSS r e c tr =
          (HandlerReturn (Some err), [Closed (DeadLinerConn c)],
           snd (Dial e (RemoteTCPAddr r @ ''/tcp/'') tr)))
   \<and> snd (handleMWSSConnToTcp r (Some c') answer) \<noteq> []
   \<and> last (snd (handleMWSSConnToTcp r (Some c') answer)) = Closed c'
   \<and> handleMWSSConnToTcp r (Some c') (Inl err') = (HandlerReturn None, [Closed c'])"
  by (auto simp: handleTcpOverMWSS_def handleMWSSConnToTcp_def Let_def split_beta
           split: dial_result.splits sum.splits)

theorem handlers_close_their_connection_witness:
  "handleTcpOverMWSS \<lparr>LocalTCPAddr = ''127.0.0.1:1234'', RemoteTCPAddr = ''wss://peer:443''\<rparr>
       (network (Inl (OtherError ''unreachable'')) (Inr 1)) (RawConn 3) NewMWSSTransporter =
     (HandlerReturn (Some (OtherError ''unreachable'')), [Closed (DeadLinerConn (RawConn 3))],
      snd (Dial (network (Inl (OtherError ''unreachable'')) (Inr 1)) ''wss://peer:443/tcp/''
        NewMWSSTransporter))"
proof -
  have h: "fst (Dial (network (Inl (OtherError ''unreachable'')) (Inr 1))
      (RemoteTCPAddr \<lparr>LocalTCPAddr = ''127.0.0.1:1234'', RemoteTCPAddr = ''wss://peer:443''\<rparr>
         @ ''/tcp/'') NewMWSSTransporter) = DialErr (OtherError ''unreachable'')"
    by (simp add: NewMWSSTransporter_def network_def nil_slice_def slice_elems_def
        Dial_def dial_body_def evict_def create_and_get_def initSession_def Let_def)
  show ?thesis
    using handlers_close_their_connection [THEN conjunct2, THEN conjunct2, THEN conjunct1,
        THEN mp, OF h, of "RawConn 3"]
    by simp
qed

end
